theory Spec2Isabelle
  imports Complex_Main
begin

section \<open>Values of the notebook\<close>

text \<open>
  The notebook \<^verbatim>\<open>yolo.ipynb\<close> sequences calls into OpenCV and numpy. The numbers
  that flow through its own code are the entries of the network's detection rows
  (numpy floats) and Python integers. Every finite float is a rational number, and the
  notebook only compares, multiplies by a frame dimension, halves, subtracts and
  truncates them; these operations are modelled exactly, on \<^typ>\<open>rat\<close>.
  Rounding of the floating-point unit, NaN and infinities are outside the model.
\<close>

datatype error = ValueError | IndexError | AttributeError

text \<open>\<^verbatim>\<open>CONFIDENCE = 0.7\<close>, \<^verbatim>\<open>THRESHOLD = 0.3\<close>.\<close>

definition CONFIDENCE :: rat where
  "CONFIDENCE = 7 / 10"

definition THRESHOLD :: rat where
  "THRESHOLD = 3 / 10"

text \<open>
  Python's \<^verbatim>\<open>int(x)\<close> on a float and numpy's \<^verbatim>\<open>astype("int")\<close> both truncate
  towards zero.
\<close>

definition py_int :: "rat \<Rightarrow> int" where
  "py_int r = (if r < 0 then \<lceil>r\<rceil> else \<lfloor>r\<rfloor>)"

text \<open>
  Indexing a Python list or a numpy array with a non-negative index: an index past the
  end raises \<^verbatim>\<open>IndexError\<close>.
\<close>

definition py_index :: "'a list \<Rightarrow> nat \<Rightarrow> error + 'a" where
  "py_index xs i = (if i < length xs then Inr (xs ! i) else Inl IndexError)"

text \<open>
  \<^verbatim>\<open>np.argmax(scores)\<close>: the index of the first occurrence of the largest entry;
  on an empty array numpy raises \<^verbatim>\<open>ValueError\<close>. The scan keeps the best value
  seen so far and its index, and replaces them only by a strictly larger entry.
\<close>

fun argmax_scan :: "rat \<Rightarrow> nat \<Rightarrow> nat \<Rightarrow> rat list \<Rightarrow> nat" where
  "argmax_scan best bi i [] = bi"
| "argmax_scan best bi i (x # xs) =
     (if best < x then argmax_scan x i (Suc i) xs else argmax_scan best bi (Suc i) xs)"

definition argmax :: "rat list \<Rightarrow> error + nat" where
  "argmax xs = (case xs of [] \<Rightarrow> Inl ValueError | x # rest \<Rightarrow> Inr (argmax_scan x 0 1 rest))"

section \<open>parse\_layers\<close>

text \<open>
  The three output lists of \<^verbatim>\<open>parse_layers\<close>. A box is the Python list
  \<^verbatim>\<open>[x, y, int(width), int(height)]\<close>; a class id is the result of
  \<^verbatim>\<open>np.argmax\<close>, a non-negative index.
\<close>

record lists =
  boxes :: "int list list"
  confidences :: "rat list"
  classIDs :: "nat list"

text \<open>
  The body of the inner loop, for one detection row:
  \<^verbatim>\<open>
  scores = detection[5:]
  classID = np.argmax(scores)
  confidence = scores[classID]
  if confidence > CONFIDENCE:
      box = detection[0:4] * np.array([W, H, W, H])
      centerX, centerY, width, height = box.astype("int")
      x = int(centerX - (width / 2))
      y = int(centerY - (height / 2))
      boxes.append([x, y, int(width), int(height)])
      confidences.append(float(confidence))
      classIDs.append(classID)
  \<close>
  The three appends mutate the lists in place; the model returns the lists as they are
  after the row. \<^verbatim>\<open>np.argmax\<close> raises before anything is appended. When it does not
  raise the row has at least six entries, so \<^verbatim>\<open>detection[0:4]\<close> has four and the
  elementwise product and the unpacking into four names cannot fail.
\<close>

definition scale_box :: "nat \<Rightarrow> nat \<Rightarrow> rat list \<Rightarrow> int list" where
  "scale_box H W detection =
     map py_int (map2 (*) (take 4 detection) [of_nat W, of_nat H, of_nat W, of_nat H])"

definition parse_detection :: "nat \<Rightarrow> nat \<Rightarrow> rat list \<Rightarrow> lists \<Rightarrow> error + lists" where
  "parse_detection H W detection acc =
     (let scores = drop 5 detection in
      case argmax scores of
        Inl e \<Rightarrow> Inl e
      | Inr classID \<Rightarrow>
          (let confidence = scores ! classID in
           if CONFIDENCE < confidence then
             (let box = scale_box H W detection;
                  centerX = box ! 0; centerY = box ! 1; width = box ! 2; height = box ! 3;
                  x = py_int (of_int centerX - of_int width / 2);
                  y = py_int (of_int centerY - of_int height / 2)
              in Inr (acc\<lparr>boxes := boxes acc @ [[x, y, width, height]],
                          confidences := confidences acc @ [confidence],
                          classIDs := classIDs acc @ [classID]\<rparr>))
           else Inr acc))"

text \<open>
  \<^verbatim>\<open>for detection in output\<close> and \<^verbatim>\<open>for output in layer_outputs\<close>. An exception
  leaves the loops at once; what was appended before it stays in the lists, so the
  result is the lists together with the exception raised, if any.
\<close>

fun parse_output :: "nat \<Rightarrow> nat \<Rightarrow> rat list list \<Rightarrow> lists \<Rightarrow> lists \<times> error option" where
  "parse_output H W [] acc = (acc, None)"
| "parse_output H W (detection # rest) acc =
     (case parse_detection H W detection acc of
        Inl e \<Rightarrow> (acc, Some e)
      | Inr acc' \<Rightarrow> parse_output H W rest acc')"

fun parse_layers :: "rat list list list \<Rightarrow> nat \<Rightarrow> nat \<Rightarrow> lists \<Rightarrow> lists \<times> error option" where
  "parse_layers [] H W acc = (acc, None)"
| "parse_layers (output # rest) H W acc =
     (case parse_output H W output acc of
        (acc', Some e) \<Rightarrow> (acc', Some e)
      | (acc', None) \<Rightarrow> parse_layers rest H W acc')"

text \<open>
  The same lists described from the detections: the largest class score of a row, the
  rows that pass the filter, and the box of a row written out by components (centre
  and size scaled by the frame, each truncated, then the top-left corner derived).
\<close>

definition max_class_probability :: "rat list \<Rightarrow> rat" where
  "max_class_probability detection = Max (set (drop 5 detection))"

definition above_confidence :: "rat list \<Rightarrow> bool" where
  "above_confidence detection = (CONFIDENCE < max_class_probability detection)"

definition has_scores :: "rat list \<Rightarrow> bool" where
  "has_scores detection = (5 < length detection)"

definition first_max_class :: "rat list \<Rightarrow> nat" where
  "first_max_class detection =
     (case argmax (drop 5 detection) of Inl e \<Rightarrow> 0 | Inr classID \<Rightarrow> classID)"

definition spec_box :: "nat \<Rightarrow> nat \<Rightarrow> rat list \<Rightarrow> int list" where
  "spec_box H W detection =
     (let centerX = py_int (detection ! 0 * of_nat W);
          centerY = py_int (detection ! 1 * of_nat H);
          width = py_int (detection ! 2 * of_nat W);
          height = py_int (detection ! 3 * of_nat H)
      in [py_int (of_int centerX - of_int width / 2),
          py_int (of_int centerY - of_int height / 2), width, height])"

definition append_kept :: "nat \<Rightarrow> nat \<Rightarrow> lists \<Rightarrow> rat list list \<Rightarrow> lists" where
  "append_kept H W acc kept =
     \<lparr>boxes = boxes acc @ map (spec_box H W) kept,
      confidences = confidences acc @ map max_class_probability kept,
      classIDs = classIDs acc @ map first_max_class kept\<rparr>"

section \<open>label\_frame\<close>

text \<open>
  An image is a numpy array that \<^verbatim>\<open>cv2.rectangle\<close> and \<^verbatim>\<open>cv2.putText\<close> change in
  place. The model keeps its shape, an identifier of its original pixel content, and the
  drawing calls applied to it, in order. The label text is
  \<^verbatim>\<open>"{}: {:.4f}".format(LABELS[classIDs[i]], confidences[i])\<close>; the model keeps the
  two arguments of the format. Font (\<^verbatim>\<open>FONT_HERSHEY_SIMPLEX\<close>) and scale
  (\<^verbatim>\<open>0.5\<close>) are constants of the call.
\<close>

datatype draw_op =
    Rectangle "int \<times> int" "int \<times> int" "nat list" nat
  | PutText string rat "int \<times> int" "nat list" nat

record image =
  rows :: nat
  cols :: nat
  pixels :: nat
  drawn :: "draw_op list"

text \<open>
  What the notebook takes from its surroundings: the label list, the colour table (one
  row of \<^verbatim>\<open>uint8\<close> values per class), OpenCV's \<^verbatim>\<open>cv2.dnn.NMSBoxes\<close> (boxes,
  scores, score threshold, overlap threshold; the kept indices), and the network:
  \<^verbatim>\<open>blobFromImage\<close>, \<^verbatim>\<open>net.setInput\<close> and \<^verbatim>\<open>net.forward(ln)\<close> together map a
  frame to its layer outputs.
\<close>

record env =
  LABELS :: "string list"
  COLORS :: "nat list list"
  NMSBoxes :: "int list list \<Rightarrow> rat list \<Rightarrow> rat \<Rightarrow> rat \<Rightarrow> nat list"
  forward :: "image \<Rightarrow> rat list list list"

fun err_bind :: "error + 'a \<Rightarrow> ('a \<Rightarrow> error + 'b) \<Rightarrow> error + 'b" where
  "err_bind (Inl e) f = Inl e"
| "err_bind (Inr a) f = f a"

text \<open>
  The body of the loop over the kept indices:
  \<^verbatim>\<open>
  x, y = (boxes[i][0], boxes[i][1])
  w, h = (boxes[i][2], boxes[i][3])
  color = [int(c) for c in COLORS[classIDs[i]]]
  cv2.rectangle(image, (x, y), (x + w, y + h), color, 2)
  text = "{}: {:.4f}".format(LABELS[classIDs[i]], confidences[i])
  cv2.putText(image, text, (x, y - 5), cv2.FONT_HERSHEY_SIMPLEX, 0.5, color, 2)
  \<close>
  Every subscript can raise \<^verbatim>\<open>IndexError\<close>. The rectangle is drawn before the label
  and the confidence are looked up, so an exception there leaves the rectangle on the
  image.
\<close>

definition box_geometry ::
  "nat list list \<Rightarrow> int list list \<Rightarrow> nat list \<Rightarrow> nat \<Rightarrow> error + (int \<times> int \<times> int \<times> int \<times> nat list)" where
  "box_geometry colors bxs ids i =
     err_bind (py_index bxs i) (\<lambda>b0. err_bind (py_index b0 0) (\<lambda>x.
     err_bind (py_index bxs i) (\<lambda>b1. err_bind (py_index b1 1) (\<lambda>y.
     err_bind (py_index bxs i) (\<lambda>b2. err_bind (py_index b2 2) (\<lambda>w.
     err_bind (py_index bxs i) (\<lambda>b3. err_bind (py_index b3 3) (\<lambda>h.
     err_bind (py_index ids i) (\<lambda>classID. err_bind (py_index colors classID) (\<lambda>color.
       Inr (x, y, w, h, color)))))))))))"

definition label_text ::
  "string list \<Rightarrow> rat list \<Rightarrow> nat list \<Rightarrow> nat \<Rightarrow> error + (string \<times> rat)" where
  "label_text labels confs ids i =
     err_bind (py_index ids i) (\<lambda>classID. err_bind (py_index labels classID) (\<lambda>label.
     err_bind (py_index confs i) (\<lambda>confidence. Inr (label, confidence))))"

definition draw_box ::
  "env \<Rightarrow> image \<Rightarrow> int list list \<Rightarrow> rat list \<Rightarrow> nat list \<Rightarrow> nat \<Rightarrow> image \<times> error option" where
  "draw_box env img bxs confs ids i =
     (case box_geometry (COLORS env) bxs ids i of
        Inl e \<Rightarrow> (img, Some e)
      | Inr (x, y, w, h, color) \<Rightarrow>
          (let img1 = img\<lparr>drawn := drawn img @ [Rectangle (x, y) (x + w, y + h) color 2]\<rparr> in
           case label_text (LABELS env) confs ids i of
             Inl e \<Rightarrow> (img1, Some e)
           | Inr (label, confidence) \<Rightarrow>
               (img1\<lparr>drawn := drawn img1 @ [PutText label confidence (x, y - 5) color 2]\<rparr>,
                None)))"

fun draw_boxes ::
  "env \<Rightarrow> image \<Rightarrow> int list list \<Rightarrow> rat list \<Rightarrow> nat list \<Rightarrow> nat list \<Rightarrow> image \<times> error option" where
  "draw_boxes env img bxs confs ids [] = (img, None)"
| "draw_boxes env img bxs confs ids (i # rest) =
     (case draw_box env img bxs confs ids i of
        (img', Some e) \<Rightarrow> (img', Some e)
      | (img', None) \<Rightarrow> draw_boxes env img' bxs confs ids rest)"

text \<open>
  \<^verbatim>\<open>
  idxs = cv2.dnn.NMSBoxes(boxes, confidences, CONFIDENCE, THRESHOLD)
  if len(idxs) > 0:
      for i in idxs.flatten(): ...
  \<close>
  The result is the image as drawn on, and the exception raised, if any.
\<close>

definition label_frame ::
  "env \<Rightarrow> image \<Rightarrow> int list list \<Rightarrow> rat list \<Rightarrow> nat list \<Rightarrow> image \<times> error option" where
  "label_frame env img bxs confs ids =
     (let idxs = NMSBoxes env bxs confs CONFIDENCE THRESHOLD in
      if 0 < length idxs then draw_boxes env img bxs confs ids idxs else (img, None))"

section \<open>The cells of the notebook\<close>

text \<open>
  The calls the notebook makes into OpenCV and the lines it prints, in the order made.
  \<^verbatim>\<open>PrintTotal n\<close> is \<^verbatim>\<open>print("total frames in video: {}".format(total))\<close>.
\<close>

datatype event =
    VideoCapture string
  | CaptureRead bool
  | BlobFromImage image
  | SetInput
  | Forward
  | VideoWriter string string nat "int \<times> int" bool
  | WriterWrite image
  | WriterRelease
  | CaptureRelease
  | Print string
  | PrintTotal int

text \<open>
  The video stream \<^verbatim>\<open>vs\<close>: what the \<open>k\<close>-th call of \<^verbatim>\<open>vs.read()\<close> returns
  (\<open>None\<close> when \<^verbatim>\<open>grabbed\<close> is false), the outcome of evaluating
  \<^verbatim>\<open>int(vs.get(prop))\<close> for the frame count (it may raise), and the integer width and
  height properties.
\<close>

record capture =
  reads :: "nat \<Rightarrow> image option"
  frame_count :: "error + int"
  frame_width :: int
  frame_height :: int

text \<open>The arguments of \<^verbatim>\<open>cv2.VideoWriter(outpath, fourcc, 30, (h, w), True)\<close>.\<close>

record video_writer =
  filename :: string
  fourcc :: string
  fps :: nat
  frameSize :: "int \<times> int"
  isColor :: bool

text \<open>
  The module-level state of the notebook: the default lists of \<^verbatim>\<open>parse_layers\<close>
  (Python evaluates the defaults \<^verbatim>\<open>boxes=[], confidences=[], classIDs=[]\<close> once, when
  the \<^verbatim>\<open>def\<close> runs, and every call that omits the arguments works on these same three
  list objects), the globals \<^verbatim>\<open>W\<close>, \<^verbatim>\<open>H\<close>, \<^verbatim>\<open>writer\<close> and \<^verbatim>\<open>total\<close>, the
  number of \<^verbatim>\<open>vs.read()\<close> calls made, the calls and prints so far, and the uncaught
  exception that ended the run, if any.
\<close>

record globals =
  defaults :: lists
  W_glob :: "nat option"
  H_glob :: "nat option"
  writer :: "video_writer option"
  total :: int
  vs_pos :: nat
  trace :: "event list"
  raised :: "error option"

definition video :: string where
  "video = ''videos/car_chase_01.mp4''"

definition outpath :: string where
  "outpath = ''output/cars.avi''"

text \<open>
  \<^verbatim>\<open>parse_layers(layer_outputs, H, W)\<close>: the call with the default arguments. The
  function appends to the default lists and returns those same objects; they stay
  bound to the function for the next call.
\<close>

definition parse_layers_default ::
  "rat list list list \<Rightarrow> nat \<Rightarrow> nat \<Rightarrow> globals \<Rightarrow> (lists \<times> error option) \<times> globals" where
  "parse_layers_default layer_outputs H W g =
     (let r = parse_layers layer_outputs H W (defaults g) in (r, g\<lparr>defaults := fst r\<rparr>))"

text \<open>
  The image cell: \<^verbatim>\<open>H, W = image.shape[:2]\<close>, the forward pass, then
  \<^verbatim>\<open>
  boxes, confidences, classIDs = parse_layers(layer_outputs, H, W)
  label_frame(image, boxes, confidences, classIDs)
  \<close>
\<close>

definition image_cell :: "env \<Rightarrow> image \<Rightarrow> globals \<Rightarrow> image \<times> globals" where
  "image_cell env img g0 =
     (let g1 = g0\<lparr>H_glob := Some (rows img), W_glob := Some (cols img),
                  trace := trace g0 @ [BlobFromImage img, SetInput, Forward]\<rparr>;
          ((ls, e1), g2) = parse_layers_default (forward env img) (rows img) (cols img) g1
      in case e1 of
           Some e \<Rightarrow> (img, g2\<lparr>raised := Some e\<rparr>)
         | None \<Rightarrow>
             (let (img', e2) = label_frame env img (boxes ls) (confidences ls) (classIDs ls)
              in (img', g2\<lparr>raised := e2\<rparr>)))"

text \<open>
  \<^verbatim>\<open>
  vs = cv2.VideoCapture(video)
  writer = None
  W, H = (None, None)
  \<close>
\<close>

definition open_video :: "globals \<Rightarrow> globals" where
  "open_video g =
     g\<lparr>writer := None, W_glob := None, H_glob := None, vs_pos := 0,
       trace := trace g @ [VideoCapture video]\<rparr>"

text \<open>
  \<^verbatim>\<open>
  try:
      prop = ...
      total = int(vs.get(prop))
      print("total frames in video: {}".format(total))
  except:
      print("Error: could not determine # of frames in video")
      print("Error: no approx. completion time can be provided")
      total = -1
  \<close>
\<close>

definition count_frames :: "capture \<Rightarrow> globals \<Rightarrow> globals" where
  "count_frames vs g =
     (case frame_count vs of
        Inr n \<Rightarrow> g\<lparr>total := n, trace := trace g @ [PrintTotal n]\<rparr>
      | Inl e \<Rightarrow>
          g\<lparr>total := - 1,
            trace := trace g @ [Print ''Error: could not determine # of frames in video'',
                            Print ''Error: no approx. completion time can be provided'']\<rparr>)"

text \<open>
  The body of the frame loop after a frame was grabbed:
  \<^verbatim>\<open>
  if W is None or H is None:
      (H, W) = frame.shape[:2]
  blob = cv2.dnn.blobFromImage(frame, ...); net.setInput(blob)
  layer_outputs = net.forward(ln)
  boxes, confidences, classIDs = parse_layers(layer_outputs, H, W)
  label_frame(frame, boxes, confidences, classIDs)
  if writer is None:
      fourcc = cv2.VideoWriter_fourcc(*"MJPG")
      frame_width = int(vs.get(cv2.CAP_PROP_FRAME_WIDTH))
      frame_height = int(vs.get(cv2.CAP_PROP_FRAME_HEIGHT))
      writer = cv2.VideoWriter(outpath, fourcc, 30, (frame_height, frame_width), True)
  writer.write(frame)
  \<close>
  After the first statement both \<^verbatim>\<open>H\<close> and \<^verbatim>\<open>W\<close> are set. An exception in
  \<^verbatim>\<open>parse_layers\<close> or \<^verbatim>\<open>label_frame\<close> is not caught: it ends the run.
\<close>

definition process_frame :: "env \<Rightarrow> capture \<Rightarrow> image \<Rightarrow> globals \<Rightarrow> globals" where
  "process_frame env vs frame g0 =
     (let g1 = (if W_glob g0 = None \<or> H_glob g0 = None
                then g0\<lparr>H_glob := Some (rows frame), W_glob := Some (cols frame)\<rparr> else g0);
          g2 = g1\<lparr>trace := trace g1 @ [BlobFromImage frame, SetInput, Forward]\<rparr>;
          ((ls, e1), g3) =
             parse_layers_default (forward env frame) (the (H_glob g2)) (the (W_glob g2)) g2
      in case e1 of
           Some e \<Rightarrow> g3\<lparr>raised := Some e\<rparr>
         | None \<Rightarrow>
             (let (frame', e2) = label_frame env frame (boxes ls) (confidences ls) (classIDs ls)
              in case e2 of
                   Some e \<Rightarrow> g3\<lparr>raised := Some e\<rparr>
                 | None \<Rightarrow>
                     (let g4 = (if writer g3 = None
                                then g3\<lparr>writer := Some \<lparr>filename = outpath, fourcc = ''MJPG'',
                                           fps = 30,
                                           frameSize = (frame_height vs, frame_width vs),
                                           isColor = True\<rparr>,
                                         trace := trace g3 @ [VideoWriter outpath ''MJPG'' 30
                                           (frame_height vs, frame_width vs) True]\<rparr>
                                else g3)
                      in g4\<lparr>trace := trace g4 @ [WriterWrite frame']\<rparr>)))"

text \<open>
  \<^verbatim>\<open>
  while True:
      grabbed, frame = vs.read()
      if not grabbed:
          break
      ...
  \<close>
  The loop ends at a read that grabs nothing, or with an uncaught exception; on a stream
  that always delivers a frame it does not end, and the result is \<open>None\<close>.
\<close>

partial_function (option) frame_loop :: "env \<Rightarrow> capture \<Rightarrow> globals \<Rightarrow> globals option" where
  "frame_loop env vs g =
     (case reads vs (vs_pos g) of
        None \<Rightarrow> Some (g\<lparr>vs_pos := Suc (vs_pos g), trace := trace g @ [CaptureRead False]\<rparr>)
      | Some frame \<Rightarrow>
          (let g' = process_frame env vs frame
                      (g\<lparr>vs_pos := Suc (vs_pos g), trace := trace g @ [CaptureRead True]\<rparr>)
           in if raised g' \<noteq> None then Some g' else frame_loop env vs g'))"

declare frame_loop.simps [code]

text \<open>
  After the loop:
  \<^verbatim>\<open>
  writer.release()
  vs.release()
  print("All done!")
  \<close>
  \<^verbatim>\<open>writer\<close> is still \<^verbatim>\<open>None\<close> when no frame was written; \<^verbatim>\<open>None.release()\<close> raises
  \<^verbatim>\<open>AttributeError\<close>.
\<close>

definition release_all :: "globals \<Rightarrow> globals" where
  "release_all g =
     (case writer g of
        None \<Rightarrow> g\<lparr>raised := Some AttributeError\<rparr>
      | Some w \<Rightarrow> g\<lparr>trace := trace g @ [WriterRelease, CaptureRelease, Print ''All done!'']\<rparr>)"

definition loop_cell :: "env \<Rightarrow> capture \<Rightarrow> globals \<Rightarrow> globals option" where
  "loop_cell env vs g =
     (case frame_loop env vs g of
        None \<Rightarrow> None
      | Some g' \<Rightarrow> Some (if raised g' \<noteq> None then g' else release_all g'))"

definition video_cells :: "env \<Rightarrow> capture \<Rightarrow> globals \<Rightarrow> globals option" where
  "video_cells env vs g = loop_cell env vs (count_frames vs (open_video g))"

text \<open>
  The frame loop on a stream whose next reads deliver the given frames and then fail,
  unrolled over the list of frames.
\<close>

fun run_frames :: "env \<Rightarrow> capture \<Rightarrow> image list \<Rightarrow> globals \<Rightarrow> globals" where
  "run_frames env vs [] g = g\<lparr>vs_pos := Suc (vs_pos g), trace := trace g @ [CaptureRead False]\<rparr>"
| "run_frames env vs (frame # rest) g =
     (let g' = process_frame env vs frame
                 (g\<lparr>vs_pos := Suc (vs_pos g), trace := trace g @ [CaptureRead True]\<rparr>)
      in if raised g' \<noteq> None then g' else run_frames env vs rest g')"

fun delivers :: "capture \<Rightarrow> nat \<Rightarrow> image list \<Rightarrow> bool" where
  "delivers vs p [] = (reads vs p = None)"
| "delivers vs p (frame # rest) = (reads vs p = Some frame \<and> delivers vs (Suc p) rest)"

section \<open>Labels and colours\<close>

text \<open>
  \<^verbatim>\<open>LABELS = open(labelsPath).read().strip().split("\n")\<close>. The argument of the model
  is the text that \<^verbatim>\<open>read()\<close> returns. \<^verbatim>\<open>str.strip()\<close> without an argument removes
  the characters for which \<^verbatim>\<open>str.isspace\<close> holds from both ends; among the code points
  below 256 these are 9 to 13, 28 to 32, 133 and 160. A \<^typ>\<open>char\<close> has eight bits, so
  code points from 256 on are outside the model.
\<close>

definition is_space :: "char \<Rightarrow> bool" where
  "is_space c =
     (let n = (of_char c :: nat)
      in (9 \<le> n \<and> n \<le> 13) \<or> (28 \<le> n \<and> n \<le> 32) \<or> n = 133 \<or> n = 160)"

definition str_strip :: "string \<Rightarrow> string" where
  "str_strip s = rev (dropWhile is_space (rev (dropWhile is_space s)))"

text \<open>
  \<^verbatim>\<open>s.split(sep)\<close> for a one-character separator: the pieces between the occurrences
  of the separator, empty pieces included; the empty string gives one empty piece.
\<close>

fun str_split :: "char \<Rightarrow> string \<Rightarrow> string list" where
  "str_split sep [] = [[]]"
| "str_split sep (c # cs) =
     (if c = sep then [] # str_split sep cs
      else (case str_split sep cs of
              [] \<Rightarrow> [[c]]
            | piece # pieces \<Rightarrow> (c # piece) # pieces))"

definition newline :: char where
  "newline = CHR 0x0A"

definition load_labels :: "string \<Rightarrow> string list" where
  "load_labels contents = str_split newline (str_strip contents)"

text \<open>\<^verbatim>\<open>sep.join(pieces)\<close>, the inverse of splitting.\<close>

fun str_join :: "char \<Rightarrow> string list \<Rightarrow> string" where
  "str_join sep [] = []"
| "str_join sep [piece] = piece"
| "str_join sep (piece # pieces) = piece @ sep # str_join sep pieces"

text \<open>
  \<^verbatim>\<open>
  np.random.seed(42)
  COLORS = np.random.randint(0, 255, size=(len(LABELS), 3), dtype="uint8")
  \<close>
  The seeded generator is numpy's; the model takes the sequence of its raw draws as a
  parameter. \<^verbatim>\<open>randint(low, high)\<close> yields values from \<open>low\<close> up to \<open>high - 1\<close>, and
  the array is filled row by row.
\<close>

definition randint :: "(nat \<Rightarrow> nat) \<Rightarrow> nat \<Rightarrow> nat \<Rightarrow> nat \<times> nat \<Rightarrow> nat list list" where
  "randint draws low high shape =
     map (\<lambda>i. map (\<lambda>j. low + draws (i * snd shape + j) mod (high - low)) [0 ..< snd shape])
       [0 ..< fst shape]"

definition make_COLORS :: "(nat \<Rightarrow> nat) \<Rightarrow> string list \<Rightarrow> nat list list" where
  "make_COLORS draws labels = randint draws 0 255 (length labels, 3)"

section \<open>Terms of the statements about the two helper functions\<close>

text \<open>
  The two drawing calls that \<^verbatim>\<open>label_frame\<close> makes for a kept index \<open>i\<close>, written
  with plain subscripts: the rectangle of box \<open>i\<close> and its label, both in the colour of
  the box's class.
\<close>

definition annotation :: "env \<Rightarrow> int list list \<Rightarrow> rat list \<Rightarrow> nat list \<Rightarrow> nat \<Rightarrow> draw_op list" where
  "annotation env bxs confs ids i =
     (let b = bxs ! i; x = b ! 0; y = b ! 1; w = b ! 2; h = b ! 3;
          color = COLORS env ! (ids ! i)
      in [Rectangle (x, y) (x + w, y + h) color 2,
          PutText (LABELS env ! (ids ! i)) (confs ! i) (x, y - 5) color 2])"

text \<open>
  The shape of the three lists that \<^verbatim>\<open>parse_layers\<close> maintains, for \<open>n\<close> classes:
  equal lengths, four entries per box, every class id below \<open>n\<close>.
\<close>

definition lists_ok :: "nat \<Rightarrow> lists \<Rightarrow> bool" where
  "lists_ok n ls =
     (length (confidences ls) = length (boxes ls) \<and> length (classIDs ls) = length (boxes ls)
      \<and> list_all (\<lambda>b. length b = 4) (boxes ls) \<and> list_all (\<lambda>c. c < n) (classIDs ls))"

section \<open>Reading the trace\<close>

text \<open>
  What the theorems below read off the trace of calls: the frames handed to
  \<^verbatim>\<open>writer.write\<close>, and the trace without the printed lines.
\<close>

fun write_of :: "event \<Rightarrow> image list" where
  "write_of (WriterWrite frame) = [frame]"
| "write_of e = []"

text \<open>
  The calls of one pass of the frame loop up to the forward pass, the calls on the
  writer, and the calls that open or release the capture or the writer.
\<close>

fun is_inference :: "event \<Rightarrow> bool" where
  "is_inference (CaptureRead grabbed) = True"
| "is_inference (BlobFromImage frame) = True"
| "is_inference SetInput = True"
| "is_inference Forward = True"
| "is_inference e = False"


fun is_lifecycle :: "event \<Rightarrow> bool" where
  "is_lifecycle (VideoCapture path) = True"
| "is_lifecycle (VideoWriter path codec rate dims colour) = True"
| "is_lifecycle WriterRelease = True"
| "is_lifecycle CaptureRelease = True"
| "is_lifecycle e = False"

fun is_print :: "event \<Rightarrow> bool" where
  "is_print (Print line) = True"
| "is_print (PrintTotal n) = True"
| "is_print e = False"

definition written_frames :: "event list \<Rightarrow> image list" where
  "written_frames l = concat (map write_of l)"

definition calls :: "event list \<Rightarrow> event list" where
  "calls l = filter (\<lambda>e. \<not> is_print e) l"

section \<open>Terms of the statements about the video cells\<close>

text \<open>
  The writer object that the loop constructs, and the relation between a grabbed frame
  and the frame handed to the writer: the latter is what \<^verbatim>\<open>label_frame\<close> leaves of the
  former, for the lists it was called with.
\<close>

definition mjpg_writer :: "capture \<Rightarrow> video_writer" where
  "mjpg_writer vs =
     \<lparr>filename = outpath, fourcc = ''MJPG'', fps = 30,
      frameSize = (frame_height vs, frame_width vs), isColor = True\<rparr>"

definition annotated_by :: "env \<Rightarrow> image \<Rightarrow> image \<Rightarrow> bool" where
  "annotated_by env frame out =
     (\<exists>ls :: lists. out = fst (label_frame env frame (boxes ls) (confidences ls) (classIDs ls)))"

text \<open>
  Well-formed surroundings: at least one label, one colour row per label, a network
  whose detection rows all have \<open>5 + len(LABELS)\<close> entries, and a suppression that
  returns indices of the boxes it was given.
\<close>

definition well_formed :: "env \<Rightarrow> bool" where
  "well_formed env =
     (LABELS env \<noteq> [] \<and> length (COLORS env) = length (LABELS env)
      \<and> (\<forall>frame. list_all (\<lambda>d. length d = 5 + length (LABELS env)) (concat (forward env frame)))
      \<and> (\<forall>bxs confs. list_all (\<lambda>i. i < length bxs) (NMSBoxes env bxs confs CONFIDENCE THRESHOLD)))"

text \<open>
  Two states of the module that differ at most in \<^verbatim>\<open>total\<close> and in an initial part of
  the trace (\<open>p1\<close> in the first, \<open>p2\<close> in the second), and two captures that differ at
  most in the outcome of reading the frame count.
\<close>

definition same_but_count :: "event list \<Rightarrow> event list \<Rightarrow> globals \<Rightarrow> globals \<Rightarrow> bool" where
  "same_but_count p1 p2 s1 s2 =
     (\<exists>rest. trace s1 = p1 @ rest \<and> trace s2 = p2 @ rest
        \<and> defaults s1 = defaults s2 \<and> W_glob s1 = W_glob s2 \<and> H_glob s1 = H_glob s2
        \<and> writer s1 = writer s2 \<and> vs_pos s1 = vs_pos s2 \<and> raised s1 = raised s2)"

definition same_stream :: "capture \<Rightarrow> capture \<Rightarrow> bool" where
  "same_stream vs1 vs2 =
     (reads vs1 = reads vs2 \<and> frame_width vs1 = frame_width vs2
      \<and> frame_height vs1 = frame_height vs2)"

section \<open>Sample inputs\<close>

text \<open>
  Concrete inputs on which the theorems below are instantiated: two class labels and
  their colours, a stand-in for \<^verbatim>\<open>cv2.dnn.NMSBoxes\<close> that keeps the index of every box
  whose score exceeds the score threshold (the sample boxes never overlap), and a
  network that reports one confident detection of class 1 on the frame with pixel
  content 1 and one weak detection on every other frame.
\<close>

definition sample_env :: env where
  "sample_env =
     \<lparr>LABELS = [''person'', ''car''],
      COLORS = [[102, 220, 225], [95, 179, 61]],
      NMSBoxes = (\<lambda>bxs confs score_threshold nms_threshold.
                    [i \<leftarrow> [0 ..< length bxs]. score_threshold < confs ! i]),
      forward = (\<lambda>img. if pixels img = 1
                        then [[[1/2, 1/2, 1/4, 1/4, 9/10, 1/10, 4/5]]]
                        else [[[1/2, 1/2, 1/4, 1/4, 1/10, 1/10, 1/5]]])\<rparr>"

definition sample_frame :: "nat \<Rightarrow> image" where
  "sample_frame k = \<lparr>rows = 100, cols = 201, pixels = k, drawn = []\<rparr>"

definition sample_lists :: lists where
  "sample_lists = \<lparr>boxes = [[75, 37, 50, 25]], confidences = [4/5], classIDs = [1]\<rparr>"

definition no_lists :: lists where
  "no_lists = \<lparr>boxes = [], confidences = [], classIDs = []\<rparr>"

text \<open>
  A video of two frames (pixel contents 1 and 2) of 100 rows and 201 columns, a video
  from which no frame can be read, and the module state before the image cell and the
  video cells have run.
\<close>

definition sample_capture :: capture where
  "sample_capture =
     \<lparr>reads = (\<lambda>k. if k < 2 then Some (sample_frame (Suc k)) else None),
      frame_count = Inr 2, frame_width = 201, frame_height = 100\<rparr>"

definition empty_capture :: capture where
  "empty_capture =
     \<lparr>reads = (\<lambda>k. None), frame_count = Inr 0, frame_width = 0, frame_height = 0\<rparr>"

definition fresh_globals :: globals where
  "fresh_globals =
     \<lparr>defaults = no_lists, W_glob = None, H_glob = None, writer = None, total = 0,
      vs_pos = 0, trace = [], raised = None\<rparr>"

section \<open>Properties of parse\_layers\<close>

lemma argmax_scan_inv:
  assumes "bi < length pre" "pre ! bi = best" "\<forall>j < length pre. pre ! j \<le> best" "\<forall>j < bi. pre ! j < best"
  shows "let k = argmax_scan best bi (length pre) xs in
         k < length (pre @ xs) \<and> (\<forall>j < length (pre @ xs). (pre @ xs) ! j \<le> (pre @ xs) ! k)
         \<and> (\<forall>j < k. (pre @ xs) ! j < (pre @ xs) ! k)"
  using assms
proof (induction xs arbitrary: best bi pre)
  case Nil
  then show ?case by simp
next
  case (Cons x xs)
  show ?case
  proof (cases "best < x")
    case True
    have "let k = argmax_scan x (length pre) (length (pre @ [x])) xs in
         k < length ((pre @ [x]) @ xs) \<and> (\<forall>j < length ((pre @ [x]) @ xs). ((pre @ [x]) @ xs) ! j \<le> ((pre @ [x]) @ xs) ! k)
         \<and> (\<forall>j < k. ((pre @ [x]) @ xs) ! j < ((pre @ [x]) @ xs) ! k)"
    proof (rule Cons.IH)
      show "length pre < length (pre @ [x])" by simp
      show "(pre @ [x]) ! length pre = x" by simp
      show "\<forall>j<length (pre @ [x]). (pre @ [x]) ! j \<le> x"
        using Cons.prems(3) True by (auto simp: nth_append less_Suc_eq intro: order_trans less_imp_le)
      show "\<forall>j<length pre. (pre @ [x]) ! j < x"
        using Cons.prems(3) True by (auto simp: nth_append)
    qed
    with True show ?thesis by simp
  next
    case False
    have "let k = argmax_scan best bi (length (pre @ [x])) xs in
         k < length ((pre @ [x]) @ xs) \<and> (\<forall>j < length ((pre @ [x]) @ xs). ((pre @ [x]) @ xs) ! j \<le> ((pre @ [x]) @ xs) ! k)
         \<and> (\<forall>j < k. ((pre @ [x]) @ xs) ! j < ((pre @ [x]) @ xs) ! k)"
    proof (rule Cons.IH)
      show "bi < length (pre @ [x])" using Cons.prems(1) by simp
      show "(pre @ [x]) ! bi = best" using Cons.prems(1,2) by (simp add: nth_append)
      show "\<forall>j<length (pre @ [x]). (pre @ [x]) ! j \<le> best"
        using Cons.prems(3) False by (auto simp: nth_append less_Suc_eq)
      show "\<forall>j<bi. (pre @ [x]) ! j < best"
        using Cons.prems(1,4) by (auto simp: nth_append)
    qed
    with False show ?thesis by simp
  qed
qed

lemma argmax_Inr:
  assumes "xs \<noteq> []"
  obtains k where "argmax xs = Inr k" "k < length xs" "xs ! k = Max (set xs)"
    "\<forall>j < k. xs ! j < xs ! k"
proof -
  from assms obtain x rest where xs: "xs = x # rest" by (cases xs) auto
  define k where "k = argmax_scan x 0 1 rest"
  have "let k = argmax_scan x 0 (length [x]) rest in
         k < length ([x] @ rest) \<and> (\<forall>j < length ([x] @ rest). ([x] @ rest) ! j \<le> ([x] @ rest) ! k)
         \<and> (\<forall>j < k. ([x] @ rest) ! j < ([x] @ rest) ! k)"
    by (rule argmax_scan_inv) auto
  then have k: "k < length xs" "\<forall>j < length xs. xs ! j \<le> xs ! k" "\<forall>j < k. xs ! j < xs ! k"
    by (simp_all add: k_def xs Let_def)
  have "xs ! k = Max (set xs)"
  proof (rule antisym)
    show "xs ! k \<le> Max (set xs)" using k(1) by simp
    show "Max (set xs) \<le> xs ! k"
      using k(2) assms by (auto simp: in_set_conv_nth)
  qed
  moreover have "argmax xs = Inr k" by (simp add: argmax_def xs k_def)
  ultimately show ?thesis using that k by blast
qed

lemma argmax_Nil: "argmax [] = Inl ValueError"
  by (simp add: argmax_def)

lemma scale_box_components:
  assumes "5 < length d"
  shows "scale_box H W d = [py_int (d ! 0 * of_nat W), py_int (d ! 1 * of_nat H),
                            py_int (d ! 2 * of_nat W), py_int (d ! 3 * of_nat H)]"
proof -
  from assms obtain a b c e f rest where "d = a # b # c # e # f # rest"
    by (cases d; simp; rename_tac d1, case_tac d1; simp; rename_tac d2, case_tac d2; simp;
        rename_tac d3, case_tac d3; simp; rename_tac d4, case_tac d4; simp)
  then show ?thesis by (simp add: scale_box_def)
qed

lemma parse_detection_closed:
  "parse_detection H W d acc =
     (if has_scores d
      then Inr (if above_confidence d then append_kept H W acc [d] else acc)
      else Inl ValueError)"
proof (cases "has_scores d")
  case False
  then have "drop 5 d = []" by (simp add: has_scores_def)
  with False show ?thesis by (simp add: parse_detection_def argmax_Nil)
next
  case True
  then have ne: "drop 5 d \<noteq> []" and len: "5 < length d" by (simp_all add: has_scores_def)
  from ne obtain k where k: "argmax (drop 5 d) = Inr k" "drop 5 d ! k = Max (set (drop 5 d))"
    by (rule argmax_Inr)
  show ?thesis
    using True k
    by (simp add: parse_detection_def Let_def above_confidence_def max_class_probability_def
        append_kept_def first_max_class_def scale_box_components [OF len] spec_box_def)
qed

lemma append_kept_Nil: "append_kept H W acc [] = acc"
  by (simp add: append_kept_def)

lemma append_kept_append:
  "append_kept H W (append_kept H W acc xs) ys = append_kept H W acc (xs @ ys)"
  by (simp add: append_kept_def)

lemma parse_output_closed:
  "parse_output H W ds acc =
     (append_kept H W acc (filter above_confidence (takeWhile has_scores ds)),
      if list_all has_scores ds then None else Some ValueError)"
proof (induction ds arbitrary: acc)
  case Nil
  show ?case by (simp add: append_kept_Nil)
next
  case (Cons d ds)
  show ?case
    by (simp add: parse_detection_closed Cons.IH append_kept_Nil append_kept_append)
qed

lemma parse_layers_closed:
  "parse_layers outs H W acc =
     (append_kept H W acc (filter above_confidence (takeWhile has_scores (concat outs))),
      if list_all has_scores (concat outs) then None else Some ValueError)"
proof (induction outs arbitrary: acc)
  case Nil
  show ?case by (simp add: append_kept_Nil)
next
  case (Cons out outs)
  show ?case
  proof (cases "list_all has_scores out")
    case True
    then have tw: "takeWhile has_scores (out @ concat outs) = out @ takeWhile has_scores (concat outs)"
      by (simp add: takeWhile_append2 list_all_iff)
    from True have tw2: "takeWhile has_scores out = out"
      by (simp add: list_all_iff)
    show ?thesis using True
      by (simp add: parse_output_closed Cons.IH tw tw2 append_kept_append)
  next
    case False
    then obtain x where x: "x \<in> set out" "\<not> has_scores x" by (auto simp: list_all_iff)
    then have tw: "takeWhile has_scores (out @ concat outs) = takeWhile has_scores out"
      by (simp add: takeWhile_append1)
    show ?thesis using False
      by (simp add: parse_output_closed tw)
  qed
qed

text \<open>
  Claim C2. \<^verbatim>\<open>parse_layers\<close> appends a detection's box, confidence and class id
  exactly when the largest class score of the row exceeds \<^verbatim>\<open>CONFIDENCE\<close> (0.7): when
  every row has at least one class score, nothing is raised, the confidences appended
  are the largest class scores above 7/10 in the order of the rows, the class ids and
  boxes appended belong to the same rows, and each class id is the position of that
  row's largest score. A row whose largest score is at most 7/10 appends nothing.
\<close>

theorem parse_layers_retains_iff_above_confidence:
  assumes "\<forall>d \<in> set (concat layer_outputs). 5 < length d"
  shows "snd (parse_layers layer_outputs H W acc) = None
    \<and> confidences (fst (parse_layers layer_outputs H W acc)) =
        confidences acc @ [c \<leftarrow> map max_class_probability (concat layer_outputs). 7 / 10 < c]
    \<and> classIDs (fst (parse_layers layer_outputs H W acc)) =
        classIDs acc @ map first_max_class
          [d \<leftarrow> concat layer_outputs. 7 / 10 < max_class_probability d]
    \<and> length (boxes (fst (parse_layers layer_outputs H W acc))) =
        length (boxes acc) + length [d \<leftarrow> concat layer_outputs. 7 / 10 < max_class_probability d]
    \<and> (\<forall>d \<in> set (concat layer_outputs).
          first_max_class d < length (drop 5 d)
          \<and> drop 5 d ! first_max_class d = max_class_probability d)"
proof -
  from assms have all: "list_all has_scores (concat layer_outputs)"
    by (simp add: list_all_iff has_scores_def)
  then have tw: "takeWhile has_scores (concat layer_outputs) = concat layer_outputs"
    by (simp add: list_all_iff)
  have ab: "above_confidence = (\<lambda>d. 7 / 10 < max_class_probability d)"
    by (rule ext) (simp add: above_confidence_def CONFIDENCE_def)
  have cls: "first_max_class d < length (drop 5 d)
          \<and> drop 5 d ! first_max_class d = max_class_probability d"
    if "d \<in> set (concat layer_outputs)" for d
  proof -
    from that assms have "5 < length d" by blast
    then have "drop 5 d \<noteq> []" by simp
    then obtain k where "argmax (drop 5 d) = Inr k" "k < length (drop 5 d)"
      "drop 5 d ! k = Max (set (drop 5 d))"
      by (rule argmax_Inr)
    then show ?thesis by (simp add: first_max_class_def max_class_probability_def)
  qed
  show ?thesis
    using all cls
    by (simp add: parse_layers_closed tw append_kept_def ab filter_map comp_def)
qed

theorem parse_layers_retains_iff_above_confidence_witness:
  "list_all (\<lambda>d. 5 < length d)
     (concat [[[1/2, 1/2, 1/4, 1/4, 9/10, 1/10, 4/5], [1/2, 1/2, 1/4, 1/4, 9/10, 7/10, 1/5 :: rat]]])
   \<and> parse_layers [[[1/2, 1/2, 1/4, 1/4, 9/10, 1/10, 4/5], [1/2, 1/2, 1/4, 1/4, 9/10, 7/10, 1/5]]]
        100 201 \<lparr>boxes = [], confidences = [], classIDs = []\<rparr>
      = (\<lparr>boxes = [[75, 37, 50, 25]], confidences = [4/5], classIDs = [1]\<rparr>, None)
   \<and> map max_class_probability
        (concat [[[1/2, 1/2, 1/4, 1/4, 9/10, 1/10, 4/5], [1/2, 1/2, 1/4, 1/4, 9/10, 7/10, 1/5]]])
      = [4/5, 7/10]"
proof -
  let ?outs = "[[[1/2, 1/2, 1/4, 1/4, 9/10, 1/10, 4/5], [1/2, 1/2, 1/4, 1/4, 9/10, 7/10, 1/5 :: rat]]]"
  have h: "\<forall>d \<in> set (concat ?outs). 5 < length d" by simp
  have ev: "parse_layers ?outs 100 201 \<lparr>boxes = [], confidences = [], classIDs = []\<rparr>
      = (\<lparr>boxes = [[75, 37, 50, 25]], confidences = [4/5], classIDs = [1]\<rparr>, None)"
    by code_simp
  have mx: "map max_class_probability (concat ?outs) = [4/5, 7/10]"
    by code_simp
  show ?thesis
    using parse_layers_retains_iff_above_confidence [OF h, of 100 201 "\<lparr>boxes = [], confidences = [], classIDs = []\<rparr>"] ev mx
    by simp
qed



section \<open>Properties of label\_frame\<close>

lemma err_bind_py_index_Inr:
  "(err_bind (py_index xs i) f = Inr r) = (i < length xs \<and> f (xs ! i) = Inr r)"
  by (simp add: py_index_def)

lemma box_geometry_Inr:
  "(box_geometry colors bxs ids i = Inr g) =
     (i < length bxs \<and> 3 < length (bxs ! i) \<and> i < length ids \<and> ids ! i < length colors
      \<and> g = (bxs ! i ! 0, bxs ! i ! 1, bxs ! i ! 2, bxs ! i ! 3, colors ! (ids ! i)))"
  unfolding box_geometry_def err_bind_py_index_Inr by auto

lemma label_text_Inr:
  "(label_text labels confs ids i = Inr t) =
     (i < length ids \<and> ids ! i < length labels \<and> i < length confs
      \<and> t = (labels ! (ids ! i), confs ! i))"
  unfolding label_text_def err_bind_py_index_Inr by auto

lemma draw_box_shape:
  "\<exists>k e. draw_box env img bxs confs ids i =
          (img\<lparr>drawn := drawn img @ take k (annotation env bxs confs ids i)\<rparr>, e)
       \<and> (e = None \<longleftrightarrow> k = 2) \<and> (0 < k \<longrightarrow> i < length bxs)"
proof (cases "box_geometry (COLORS env) bxs ids i")
  case (Inl e)
  then have "draw_box env img bxs confs ids i =
          (img\<lparr>drawn := drawn img @ take 0 (annotation env bxs confs ids i)\<rparr>, Some e)"
    by (simp add: draw_box_def)
  then show ?thesis by (intro exI [of _ "0::nat"] exI [of _ "Some e"]) simp
next
  case (Inr geo)
  then have ok: "i < length bxs"
    and geo: "geo = (bxs ! i ! 0, bxs ! i ! 1, bxs ! i ! 2, bxs ! i ! 3, COLORS env ! (ids ! i))"
    by (simp_all add: box_geometry_Inr)
  show ?thesis
  proof (cases "label_text (LABELS env) confs ids i")
    case (Inl e)
    with Inr geo have "draw_box env img bxs confs ids i =
          (img\<lparr>drawn := drawn img @ take 1 (annotation env bxs confs ids i)\<rparr>, Some e)"
      by (simp add: draw_box_def annotation_def Let_def)
    with ok show ?thesis by (intro exI [of _ "1::nat"] exI [of _ "Some e"]) simp
  next
    case (Inr lab)
    then have lab: "lab = (LABELS env ! (ids ! i), confs ! i)"
      by (simp add: label_text_Inr)
    from Inr lab \<open>box_geometry (COLORS env) bxs ids i = Inr geo\<close> geo
    have "draw_box env img bxs confs ids i =
          (img\<lparr>drawn := drawn img @ take 2 (annotation env bxs confs ids i)\<rparr>, None)"
      by (simp add: draw_box_def annotation_def Let_def)
    with ok show ?thesis by (intro exI [of _ "2::nat"] exI [of _ None]) simp
  qed
qed


lemma draw_boxes_shape:
  "\<exists>ops. fst (draw_boxes env img bxs confs ids idxs) = img\<lparr>drawn := drawn img @ ops\<rparr>
     \<and> (\<forall>op \<in> set ops. \<exists>i \<in> set idxs. i < length bxs \<and> op \<in> set (annotation env bxs confs ids i))
     \<and> (snd (draw_boxes env img bxs confs ids idxs) = None \<longrightarrow>
          ops = concat (map (annotation env bxs confs ids) idxs))"
proof (induction idxs arbitrary: img)
  case Nil
  show ?case by (rule exI [of _ "[]"]) simp
next
  case (Cons i idxs)
  obtain k e where k: "draw_box env img bxs confs ids i =
          (img\<lparr>drawn := drawn img @ take k (annotation env bxs confs ids i)\<rparr>, e)"
      "e = None \<longleftrightarrow> k = 2" "0 < k \<longrightarrow> i < length bxs"
    using draw_box_shape by blast
  define a where "a = take k (annotation env bxs confs ids i)"
  define img1 where "img1 = img\<lparr>drawn := drawn img @ a\<rparr>"
  have a_in: "\<forall>op \<in> set a. i < length bxs \<and> op \<in> set (annotation env bxs confs ids i)"
    unfolding a_def using k(3) by (cases k) (auto dest: in_set_takeD)
  have dk: "draw_box env img bxs confs ids i = (img1, e)"
    using k(1) by (simp add: img1_def a_def)
  show ?case
  proof (cases e)
    case (Some err)
    with dk have "draw_boxes env img bxs confs ids (i # idxs) = (img1, Some err)"
      by simp
    with a_in show ?thesis
      by (intro exI [of _ a]) (auto simp: img1_def)
  next
    case None
    with k(2) have "k = 2" by simp
    then have full: "a = annotation env bxs confs ids i"
      by (simp add: a_def annotation_def Let_def)
    from None dk have step: "draw_boxes env img bxs confs ids (i # idxs) =
        draw_boxes env img1 bxs confs ids idxs" by simp
    from Cons.IH [of img1] obtain ops where all_ops:
      "fst (draw_boxes env img1 bxs confs ids idxs) = img1\<lparr>drawn := drawn img1 @ ops\<rparr>
       \<and> (\<forall>op \<in> set ops. \<exists>i \<in> set idxs. i < length bxs \<and> op \<in> set (annotation env bxs confs ids i))
       \<and> (snd (draw_boxes env img1 bxs confs ids idxs) = None \<longrightarrow>
          ops = concat (map (annotation env bxs confs ids) idxs))" ..
    note ops = all_ops [THEN conjunct1] all_ops [THEN conjunct2, THEN conjunct1]
      all_ops [THEN conjunct2, THEN conjunct2]
    show ?thesis
    proof (intro exI [of _ "a @ ops"] conjI)
      show "fst (draw_boxes env img bxs confs ids (i # idxs)) = img\<lparr>drawn := drawn img @ a @ ops\<rparr>"
        using step ops(1) by (simp add: img1_def)
      show "\<forall>op\<in>set (a @ ops). \<exists>i\<in>set (i # idxs). i < length bxs \<and> op \<in> set (annotation env bxs confs ids i)"
        using a_in ops(2) by auto
      show "snd (draw_boxes env img bxs confs ids (i # idxs)) = None \<longrightarrow>
          a @ ops = concat (map (annotation env bxs confs ids) (i # idxs))"
        using step ops(3) full by simp
    qed
  qed
qed

lemma label_frame_only_draws:
  "\<exists>ops. fst (label_frame env img bxs confs ids) = img\<lparr>drawn := drawn img @ ops\<rparr>"
proof (cases "NMSBoxes env bxs confs CONFIDENCE THRESHOLD")
  case Nil
  then have "fst (label_frame env img bxs confs ids) = img\<lparr>drawn := drawn img @ []\<rparr>"
    by (simp add: label_frame_def)
  then show ?thesis ..
next
  case (Cons i idxs)
  from draw_boxes_shape [of env img bxs confs ids "i # idxs"] obtain ops where
    "fst (draw_boxes env img bxs confs ids (i # idxs)) = img\<lparr>drawn := drawn img @ ops\<rparr>"
    by (elim exE conjE)
  with Cons have "fst (label_frame env img bxs confs ids) = img\<lparr>drawn := drawn img @ ops\<rparr>"
    by (simp add: label_frame_def)
  then show ?thesis ..
qed

text \<open>
  Claim C6. \<^verbatim>\<open>label_frame\<close> only adds drawing calls to the image, and every call it
  adds is the rectangle or the label of \<^verbatim>\<open>boxes[i]\<close> for an index \<open>i\<close> that the one
  \<^verbatim>\<open>NMSBoxes\<close> call kept, with \<^verbatim>\<open>boxes[i]\<close> one of the input boxes. When no exception
  is raised the calls are exactly one rectangle and one label per kept index, in order.
  When the suppression keeps no index the image is returned unchanged.
\<close>

theorem label_frame_annotates_kept_boxes:
  "\<exists>ops. fst (label_frame env img bxs confs ids) = img\<lparr>drawn := drawn img @ ops\<rparr>
     \<and> (\<forall>op \<in> set ops. \<exists>i \<in> set (NMSBoxes env bxs confs CONFIDENCE THRESHOLD).
            i < length bxs \<and> bxs ! i \<in> set bxs \<and> op \<in> set (annotation env bxs confs ids i))
     \<and> (snd (label_frame env img bxs confs ids) = None \<longrightarrow>
          ops = concat (map (annotation env bxs confs ids) (NMSBoxes env bxs confs CONFIDENCE THRESHOLD)))
     \<and> (NMSBoxes env bxs confs CONFIDENCE THRESHOLD = [] \<longrightarrow>
          label_frame env img bxs confs ids = (img, None))"
proof -
  define idxs where "idxs = NMSBoxes env bxs confs CONFIDENCE THRESHOLD"
  have lf: "label_frame env img bxs confs ids = draw_boxes env img bxs confs ids idxs"
    by (cases idxs) (simp_all add: label_frame_def idxs_def [symmetric])
  from draw_boxes_shape [of env img bxs confs ids idxs] obtain ops where all_ops:
    "fst (draw_boxes env img bxs confs ids idxs) = img\<lparr>drawn := drawn img @ ops\<rparr>
     \<and> (\<forall>op \<in> set ops. \<exists>i \<in> set idxs. i < length bxs \<and> op \<in> set (annotation env bxs confs ids i))
     \<and> (snd (draw_boxes env img bxs confs ids idxs) = None \<longrightarrow>
          ops = concat (map (annotation env bxs confs ids) idxs))" ..
  note ops = all_ops [THEN conjunct1] all_ops [THEN conjunct2, THEN conjunct1]
    all_ops [THEN conjunct2, THEN conjunct2]
  from ops(2) have in_bxs: "\<forall>op \<in> set ops. \<exists>i \<in> set idxs.
      i < length bxs \<and> bxs ! i \<in> set bxs \<and> op \<in> set (annotation env bxs confs ids i)"
    by (meson nth_mem)
  have empty: "idxs = [] \<longrightarrow> label_frame env img bxs confs ids = (img, None)"
    by (simp add: lf)
  show ?thesis
    unfolding idxs_def [symmetric] lf
    by (rule exI [of _ ops]) (intro conjI ops(1) in_bxs ops(3) empty [unfolded lf])
qed

theorem label_frame_annotates_kept_boxes_witness:
  "fst (label_frame sample_env (sample_frame 1) (boxes sample_lists) (confidences sample_lists)
          (classIDs sample_lists)) =
     \<lparr>rows = 100, cols = 201, pixels = 1,
      drawn = [Rectangle (75, 37) (125, 62) [95, 179, 61] 2,
               PutText ''car'' (4/5) (75, 32) [95, 179, 61] 2]\<rparr>
   \<and> label_frame sample_env (sample_frame 1) [] [] [] = (sample_frame 1, None)"
proof -
  let ?b = "boxes sample_lists" and ?c = "confidences sample_lists" and ?k = "classIDs sample_lists"
  from label_frame_annotates_kept_boxes [of sample_env "sample_frame 1" ?b ?c ?k]
  obtain ops where all_ops:
    "fst (label_frame sample_env (sample_frame 1) ?b ?c ?k) =
       (sample_frame 1)\<lparr>drawn := drawn (sample_frame 1) @ ops\<rparr>
     \<and> (\<forall>op \<in> set ops. \<exists>i \<in> set (NMSBoxes sample_env ?b ?c CONFIDENCE THRESHOLD).
            i < length ?b \<and> ?b ! i \<in> set ?b \<and> op \<in> set (annotation sample_env ?b ?c ?k i))
     \<and> (snd (label_frame sample_env (sample_frame 1) ?b ?c ?k) = None \<longrightarrow>
       ops = concat (map (annotation sample_env ?b ?c ?k)
                      (NMSBoxes sample_env ?b ?c CONFIDENCE THRESHOLD)))
     \<and> (NMSBoxes sample_env ?b ?c CONFIDENCE THRESHOLD = [] \<longrightarrow>
          label_frame sample_env (sample_frame 1) ?b ?c ?k = (sample_frame 1, None))" ..
  note ops = all_ops [THEN conjunct1] all_ops [THEN conjunct2, THEN conjunct2, THEN conjunct1]
  have "snd (label_frame sample_env (sample_frame 1) ?b ?c ?k) = None"
    by code_simp
  moreover have "concat (map (annotation sample_env ?b ?c ?k)
                      (NMSBoxes sample_env ?b ?c CONFIDENCE THRESHOLD)) =
      [Rectangle (75, 37) (125, 62) [95, 179, 61] 2,
       PutText ''car'' (4/5) (75, 32) [95, 179, 61] 2]"
    by code_simp
  ultimately have first: "fst (label_frame sample_env (sample_frame 1) ?b ?c ?k) =
     \<lparr>rows = 100, cols = 201, pixels = 1,
      drawn = [Rectangle (75, 37) (125, 62) [95, 179, 61] 2,
               PutText ''car'' (4/5) (75, 32) [95, 179, 61] 2]\<rparr>"
    using ops by (simp add: sample_frame_def)
  have "NMSBoxes sample_env [] [] CONFIDENCE THRESHOLD = []"
    by code_simp
  moreover from label_frame_annotates_kept_boxes [of sample_env "sample_frame 1" "[]" "[]" "[]"]
  have "NMSBoxes sample_env [] [] CONFIDENCE THRESHOLD = [] \<longrightarrow>
      label_frame sample_env (sample_frame 1) [] [] [] = (sample_frame 1, None)"
    by (elim exE conjE)
  ultimately have "label_frame sample_env (sample_frame 1) [] [] [] = (sample_frame 1, None)"
    by (rule rev_mp)
  with first show ?thesis by simp
qed

lemma spec_box_length: "length (spec_box H W d) = 4"
  by (simp add: spec_box_def Let_def)

lemma first_max_class_less:
  assumes "5 < length d"
  shows "first_max_class d < length d - 5"
proof -
  from assms have "drop 5 d \<noteq> []" by simp
  then obtain k where "argmax (drop 5 d) = Inr k" "k < length (drop 5 d)"
    by (rule argmax_Inr)
  then show ?thesis by (simp add: first_max_class_def)
qed

lemma lists_ok_append_kept:
  assumes "lists_ok n acc" "\<forall>d \<in> set kept. length d = 5 + n" "0 < n"
  shows "lists_ok n (append_kept H W acc kept)"
proof -
  have "first_max_class d < n" if "d \<in> set kept" for d
    using first_max_class_less [of d] assms(2,3) that by auto
  with assms(1) show ?thesis
    by (auto simp: lists_ok_def append_kept_def list_all_iff spec_box_length)
qed

lemma parse_layers_lists_ok:
  assumes "lists_ok n acc" "\<forall>d \<in> set (concat outs). length d = 5 + n" "0 < n"
  shows "lists_ok n (fst (parse_layers outs H W acc)) \<and> snd (parse_layers outs H W acc) = None"
proof -
  from assms(2,3) have hs: "\<forall>d \<in> set (concat outs). has_scores d"
    by (simp add: has_scores_def)
  then have tw: "takeWhile has_scores (concat outs) = concat outs"
    by (simp only: takeWhile_eq_all_conv)
  from hs have la: "list_all has_scores (concat outs)"
    by (simp only: list_all_iff)
  have "lists_ok n (append_kept H W acc (filter above_confidence (concat outs)))"
    by (rule lists_ok_append_kept [OF assms(1) _ assms(3)]) (use assms(2) in auto)
  then show ?thesis
    by (simp add: parse_layers_closed tw la)
qed

lemma draw_box_in_bounds:
  assumes "lists_ok (length (LABELS env)) ls" "length (COLORS env) = length (LABELS env)"
    "i < length (boxes ls)"
  shows "box_geometry (COLORS env) (boxes ls) (classIDs ls) i =
           Inr (boxes ls ! i ! 0, boxes ls ! i ! 1, boxes ls ! i ! 2, boxes ls ! i ! 3,
                COLORS env ! (classIDs ls ! i))"
    and "label_text (LABELS env) (confidences ls) (classIDs ls) i =
           Inr (LABELS env ! (classIDs ls ! i), confidences ls ! i)"
    and "snd (draw_box env img (boxes ls) (confidences ls) (classIDs ls) i) = None"
proof -
  from assms have b: "3 < length (boxes ls ! i)" "i < length (classIDs ls)"
    "i < length (confidences ls)" "classIDs ls ! i < length (LABELS env)"
    by (auto simp: lists_ok_def list_all_length)
  show g: "box_geometry (COLORS env) (boxes ls) (classIDs ls) i =
           Inr (boxes ls ! i ! 0, boxes ls ! i ! 1, boxes ls ! i ! 2, boxes ls ! i ! 3,
                COLORS env ! (classIDs ls ! i))"
    using b assms(2,3) by (simp add: box_geometry_Inr)
  show t: "label_text (LABELS env) (confidences ls) (classIDs ls) i =
           Inr (LABELS env ! (classIDs ls ! i), confidences ls ! i)"
    using b by (simp add: label_text_Inr)
  show "snd (draw_box env img (boxes ls) (confidences ls) (classIDs ls) i) = None"
    by (simp add: draw_box_def g t Let_def)
qed

lemma draw_boxes_in_bounds:
  assumes "lists_ok (length (LABELS env)) ls" "length (COLORS env) = length (LABELS env)"
    "\<forall>i \<in> set idxs. i < length (boxes ls)"
  shows "snd (draw_boxes env img (boxes ls) (confidences ls) (classIDs ls) idxs) = None"
  using assms(3)
proof (induction idxs arbitrary: img)
  case Nil
  show ?case by simp
next
  case (Cons i idxs)
  then have i: "i < length (boxes ls)" by simp
  obtain img' where d: "draw_box env img (boxes ls) (confidences ls) (classIDs ls) i = (img', None)"
    using draw_box_in_bounds(3) [OF assms(1,2) i, of img]
    by (cases "draw_box env img (boxes ls) (confidences ls) (classIDs ls) i") auto
  from Cons have "snd (draw_boxes env img' (boxes ls) (confidences ls) (classIDs ls) idxs) = None"
    by simp
  with d show ?case by simp
qed

text \<open>
  Claim C9. Given three lists of equal length whose class ids are all below the number
  of labels (boxes have four entries, the colour table has one row per label, and the
  suppression returns indices of input boxes), every subscript of \<^verbatim>\<open>label_frame\<close>
  is in range for every kept index: the lookups of box, class id, colour, label and
  confidence all succeed and \<^verbatim>\<open>label_frame\<close> raises nothing. \<^verbatim>\<open>parse_layers\<close> keeps
  the lists in this shape when every detection row has \<open>5 + len(LABELS)\<close> entries,
  since the class id is an argmax over \<^verbatim>\<open>detection[5:]\<close>.
\<close>

theorem label_frame_indices_in_bounds:
  assumes "length (confidences ls) = length (boxes ls)"
    and "length (classIDs ls) = length (boxes ls)"
    and "\<forall>b \<in> set (boxes ls). length b = 4"
    and "\<forall>c \<in> set (classIDs ls). c < length (LABELS env)"
    and "length (COLORS env) = length (LABELS env)"
    and "\<forall>i \<in> set (NMSBoxes env (boxes ls) (confidences ls) CONFIDENCE THRESHOLD).
           i < length (boxes ls)"
  shows "(\<forall>i \<in> set (NMSBoxes env (boxes ls) (confidences ls) CONFIDENCE THRESHOLD).
            (\<exists>geo. box_geometry (COLORS env) (boxes ls) (classIDs ls) i = Inr geo)
          \<and> (\<exists>lab. label_text (LABELS env) (confidences ls) (classIDs ls) i = Inr lab))
       \<and> snd (label_frame env img (boxes ls) (confidences ls) (classIDs ls)) = None
       \<and> (\<forall>outs H W. (\<forall>d \<in> set (concat outs). length d = 5 + length (LABELS env))
             \<and> LABELS env \<noteq> [] \<longrightarrow>
             parse_layers outs H W ls = (fst (parse_layers outs H W ls), None)
           \<and> lists_ok (length (LABELS env)) (fst (parse_layers outs H W ls)))"
proof -
  from assms(1-4) have ok: "lists_ok (length (LABELS env)) ls"
    by (simp add: lists_ok_def list_all_iff)
  have a: "\<forall>i \<in> set (NMSBoxes env (boxes ls) (confidences ls) CONFIDENCE THRESHOLD).
            (\<exists>geo. box_geometry (COLORS env) (boxes ls) (classIDs ls) i = Inr geo)
          \<and> (\<exists>lab. label_text (LABELS env) (confidences ls) (classIDs ls) i = Inr lab)"
    using draw_box_in_bounds(1,2) [OF ok assms(5)] assms(6) by blast
  have b: "snd (label_frame env img (boxes ls) (confidences ls) (classIDs ls)) = None"
    using draw_boxes_in_bounds [OF ok assms(5,6)] by (simp add: label_frame_def Let_def)
  have c: "parse_layers outs H W ls = (fst (parse_layers outs H W ls), None)
           \<and> lists_ok (length (LABELS env)) (fst (parse_layers outs H W ls))"
    if "\<forall>d \<in> set (concat outs). length d = 5 + length (LABELS env)" "LABELS env \<noteq> []"
    for outs H W
    using parse_layers_lists_ok [OF ok that(1), of H W] that(2)
    by (simp add: prod_eq_iff)
  from a b c show ?thesis by blast
qed

theorem label_frame_indices_in_bounds_witness:
  "box_geometry (COLORS sample_env) (boxes sample_lists) (classIDs sample_lists) 0 =
     Inr (75, 37, 50, 25, [95, 179, 61])
   \<and> label_text (LABELS sample_env) (confidences sample_lists) (classIDs sample_lists) 0 =
     Inr (''car'', 4/5)
   \<and> snd (label_frame sample_env (sample_frame 1) (boxes sample_lists)
        (confidences sample_lists) (classIDs sample_lists)) = None
   \<and> lists_ok 2 (fst (parse_layers [[[1/2, 1/2, 1/4, 1/4, 9/10, 1/10, 4/5]]] 100 201 sample_lists))"
proof -
  have h1: "length (confidences sample_lists) = length (boxes sample_lists)"
    and h2: "length (classIDs sample_lists) = length (boxes sample_lists)"
    and h3: "\<forall>b \<in> set (boxes sample_lists). length b = 4"
    and h4: "\<forall>c \<in> set (classIDs sample_lists). c < length (LABELS sample_env)"
    and h5: "length (COLORS sample_env) = length (LABELS sample_env)"
    by (simp_all add: sample_lists_def sample_env_def)
  have nms: "NMSBoxes sample_env (boxes sample_lists) (confidences sample_lists)
               CONFIDENCE THRESHOLD = [0]"
    by code_simp
  then have h6: "\<forall>i \<in> set (NMSBoxes sample_env (boxes sample_lists) (confidences sample_lists)
               CONFIDENCE THRESHOLD). i < length (boxes sample_lists)"
    by (simp add: sample_lists_def)
  note th = label_frame_indices_in_bounds [OF h1 h2 h3 h4 h5 h6, of "sample_frame 1"]
  have g: "box_geometry (COLORS sample_env) (boxes sample_lists) (classIDs sample_lists) 0 =
     Inr (75, 37, 50, 25, [95, 179, 61])"
    by code_simp
  have t: "label_text (LABELS sample_env) (confidences sample_lists) (classIDs sample_lists) 0 =
     Inr (''car'', 4/5)"
    by code_simp
  have rows_ok: "\<forall>d \<in> set (concat [[[1/2, 1/2, 1/4, 1/4, 9/10, 1/10, 4/5 :: rat]]]).
      length d = 5 + length (LABELS sample_env)"
    by (simp add: sample_env_def)
  have ne: "LABELS sample_env \<noteq> []" by (simp add: sample_env_def)
  have two: "length (LABELS sample_env) = 2" by (simp add: sample_env_def)
  from th rows_ok ne
  have "lists_ok (length (LABELS sample_env))
          (fst (parse_layers [[[1/2, 1/2, 1/4, 1/4, 9/10, 1/10, 4/5]]] 100 201 sample_lists))"
    by blast
  with th g t two show ?thesis by simp
qed

section \<open>Properties of the label list and the colour table\<close>

lemma last_dropWhile_eq: "dropWhile P xs \<noteq> [] \<Longrightarrow> last (dropWhile P xs) = last xs"
  by (induction xs) (auto split: if_splits)

lemma str_strip_decomposition:
  "\<exists>pre suf. s = pre @ str_strip s @ suf \<and> list_all is_space pre \<and> list_all is_space suf"
proof -
  define m where "m = dropWhile is_space s"
  define pre where "pre = takeWhile is_space s"
  define suf where "suf = rev (takeWhile is_space (rev m))"
  have "str_strip s @ suf =
      rev (takeWhile is_space (rev m) @ dropWhile is_space (rev m))"
    by (simp only: str_strip_def suf_def m_def rev_append)
  also have "\<dots> = rev (rev m)" by (simp only: takeWhile_dropWhile_id)
  finally have m: "m = str_strip s @ suf" by simp
  have "s = pre @ m" by (simp add: pre_def m_def)
  with m have "s = pre @ str_strip s @ suf" by simp
  moreover have "list_all is_space pre"
    by (auto simp: pre_def list_all_iff dest: set_takeWhileD)
  moreover have "list_all is_space suf"
    by (auto simp: suf_def list_all_iff dest: set_takeWhileD)
  ultimately show ?thesis by blast
qed

lemma str_strip_ends:
  "str_strip s = [] \<or> (\<not> is_space (hd (str_strip s)) \<and> \<not> is_space (last (str_strip s)))"
proof (cases "str_strip s = []")
  case True
  then show ?thesis by simp
next
  case False
  define m where "m = dropWhile is_space s"
  from False have d: "dropWhile is_space (rev m) \<noteq> []" by (simp add: str_strip_def m_def)
  then have mne: "m \<noteq> []" by auto
  have "last (str_strip s) = hd (dropWhile is_space (rev m))"
    using d by (simp add: str_strip_def m_def last_rev)
  then have l: "\<not> is_space (last (str_strip s))"
    using hd_dropWhile [OF d] by simp
  have "hd (str_strip s) = last (dropWhile is_space (rev m))"
    using d by (simp add: str_strip_def m_def hd_rev)
  also have "\<dots> = last (rev m)" using d by (rule last_dropWhile_eq)
  also have "\<dots> = hd m" using mne by (simp add: last_rev)
  finally have "hd (str_strip s) = hd (dropWhile is_space s)" by (simp add: m_def)
  moreover have "\<not> is_space (hd (dropWhile is_space s))"
    using mne hd_dropWhile [of is_space s] by (simp add: m_def)
  ultimately show ?thesis using l by simp
qed

lemma str_split_nonempty: "str_split sep s \<noteq> []"
  by (induction s) (auto split: list.splits)

lemma str_join_Cons: "ps \<noteq> [] \<Longrightarrow> str_join sep (p # ps) = p @ sep # str_join sep ps"
  by (cases ps) simp_all

lemma str_join_split: "str_join sep (str_split sep s) = s"
proof (induction s)
  case Nil
  show ?case by simp
next
  case (Cons c cs)
  obtain p ps where sp: "str_split sep cs = p # ps"
    using str_split_nonempty [of sep cs] by (cases "str_split sep cs") auto
  show ?case
  proof (cases "c = sep")
    case True
    then show ?thesis using Cons.IH str_split_nonempty [of sep cs] by (simp add: str_join_Cons)
  next
    case False
    have "str_join sep ((c # p) # ps) = c # str_join sep (p # ps)"
      by (cases ps) simp_all
    with False sp Cons.IH show ?thesis by simp
  qed
qed

lemma str_split_no_sep: "\<forall>p \<in> set (str_split sep s). sep \<notin> set p"
  by (induction s) (auto split: list.splits)

lemma randint_bound: "low < high \<Longrightarrow> low + k mod (high - low) < (high::nat)"
proof -
  assume "low < high"
  then have "k mod (high - low) < high - low" by simp
  then show ?thesis by arith
qed

lemma randint_shape:
  "length (randint draws low high (n, m)) = n"
  "\<forall>row \<in> set (randint draws low high (n, m)). length row = m"
  "low < high \<Longrightarrow> \<forall>row \<in> set (randint draws low high (n, m)). \<forall>v \<in> set row. low \<le> v \<and> v < high"
  by (auto simp: randint_def randint_bound)

text \<open>
  Claim C8. The label list is the stripped contents of the file split at newlines: the
  stripped text is the contents without a leading and a trailing run of whitespace, it
  neither starts nor ends with whitespace, joining the labels with newlines gives it
  back, and no label contains a newline. The colour table has as many rows as there are
  labels, each of three components below 255, so every class id that indexes the label
  list indexes the colour table.
\<close>

theorem labels_split_and_colours_per_label:
  "load_labels contents = str_split newline (str_strip contents)
   \<and> (\<exists>pre suf. contents = pre @ str_strip contents @ suf
         \<and> list_all is_space pre \<and> list_all is_space suf)
   \<and> (str_strip contents = []
        \<or> (\<not> is_space (hd (str_strip contents)) \<and> \<not> is_space (last (str_strip contents))))
   \<and> str_join newline (load_labels contents) = str_strip contents
   \<and> (\<forall>l \<in> set (load_labels contents). newline \<notin> set l)
   \<and> length (make_COLORS draws (load_labels contents)) = length (load_labels contents)
   \<and> (\<forall>row \<in> set (make_COLORS draws (load_labels contents)).
         length row = 3 \<and> (\<forall>v \<in> set row. v < 255))
   \<and> (\<forall>classID < length (load_labels contents).
         \<exists>row. py_index (make_COLORS draws (load_labels contents)) classID = Inr row
               \<and> length row = 3)"
proof -
  let ?L = "load_labels contents"
  let ?C = "make_COLORS draws ?L"
  have len: "length ?C = length ?L" by (simp add: make_COLORS_def randint_shape)
  have rows3: "\<forall>row \<in> set ?C. length row = 3"
    unfolding make_COLORS_def by (rule randint_shape(2))
  have vals: "\<forall>row \<in> set ?C. \<forall>v \<in> set row. 0 \<le> v \<and> v < 255"
    unfolding make_COLORS_def by (rule randint_shape(3)) simp
  have idx: "\<exists>row. py_index ?C classID = Inr row \<and> length row = 3" if "classID < length ?L"
    for classID
    using that len rows3 by (simp add: py_index_def)
  show ?thesis
    using str_strip_decomposition [of contents] str_strip_ends [of contents]
      str_split_no_sep [of newline "str_strip contents"] len rows3 vals idx
    by (simp add: load_labels_def str_join_split)
qed

theorem labels_split_and_colours_per_label_witness:
  "load_labels (''  person'' @ [newline] @ ''traffic light'' @ [newline] @ ''car'' @ [newline, newline])
     = [''person'', ''traffic light'', ''car'']
   \<and> length (make_COLORS (\<lambda>k. 300 + 7 * k)
        (load_labels (''  person'' @ [newline] @ ''traffic light'' @ [newline] @ ''car'' @ [newline, newline]))) = 3
   \<and> make_COLORS (\<lambda>k. 300 + 7 * k) [''person'', ''traffic light'', ''car'']
     = [[45, 52, 59], [66, 73, 80], [87, 94, 101]]"
proof -
  let ?s = "''  person'' @ [newline] @ ''traffic light'' @ [newline] @ ''car'' @ [newline, newline]"
  have l: "load_labels ?s = [''person'', ''traffic light'', ''car'']"
    by code_simp
  have c: "make_COLORS (\<lambda>k. 300 + 7 * k) [''person'', ''traffic light'', ''car'']
     = [[45, 52, 59], [66, 73, 80], [87, 94, 101]]"
    by code_simp
  from labels_split_and_colours_per_label [of ?s "\<lambda>k. 300 + 7 * k"]
  have "length (make_COLORS (\<lambda>k. 300 + 7 * k) (load_labels ?s)) = length (load_labels ?s)"
    by (elim conjE)
  with l c show ?thesis by simp
qed

section \<open>Properties of the frame loop\<close>


lemma written_frames_append [simp]: "written_frames (xs @ ys) = written_frames xs @ written_frames ys"
  by (simp add: written_frames_def)

lemma calls_append [simp]: "calls (xs @ ys) = calls xs @ calls ys"
  by (simp add: calls_def)

lemma process_frame_unfold:
  assumes "H = (if W_glob g = None \<or> H_glob g = None then rows frame else the (H_glob g))"
    and "W = (if W_glob g = None \<or> H_glob g = None then cols frame else the (W_glob g))"
    and "r = parse_layers (forward env frame) H W (defaults g)"
    and "lf = label_frame env frame (boxes (fst r)) (confidences (fst r)) (classIDs (fst r))"
    and "g3 = g\<lparr>defaults := fst r, W_glob := Some W, H_glob := Some H,
                 trace := trace g @ [BlobFromImage frame, SetInput, Forward]\<rparr>"
  shows "process_frame env vs frame g =
     (if snd r \<noteq> None then g3\<lparr>raised := snd r\<rparr>
      else if snd lf \<noteq> None then g3\<lparr>raised := snd lf\<rparr>
      else if writer g = None
        then g3\<lparr>writer := Some \<lparr>filename = outpath, fourcc = ''MJPG'', fps = 30,
                     frameSize = (frame_height vs, frame_width vs), isColor = True\<rparr>,
                 trace := trace g3 @ [VideoWriter outpath ''MJPG'' 30
                                    (frame_height vs, frame_width vs) True,
                                  WriterWrite (fst lf)]\<rparr>
        else g3\<lparr>trace := trace g3 @ [WriterWrite (fst lf)]\<rparr>)"
  unfolding assms
  by (cases "W_glob g"; cases "H_glob g")
     (auto simp: process_frame_def parse_layers_default_def Let_def split: prod.splits option.splits)

lemma process_frame_vs_pos [simp]: "vs_pos (process_frame env vs frame g) = vs_pos g"
  by (simp add: process_frame_unfold [OF refl refl refl refl refl])

lemma process_frame_total [simp]: "total (process_frame env vs frame g) = total g"
  by (simp add: process_frame_unfold [OF refl refl refl refl refl])

lemma frame_loop_delivers:
  "delivers vs (vs_pos g) frames \<Longrightarrow> frame_loop env vs g = Some (run_frames env vs frames g)"
proof (induction frames arbitrary: g)
  case Nil
  then show ?case by (subst frame_loop.simps) simp
next
  case (Cons f fs)
  from Cons.prems have r: "reads vs (vs_pos g) = Some f" and d: "delivers vs (Suc (vs_pos g)) fs"
    by simp_all
  define g1 where "g1 = process_frame env vs f
                      (g\<lparr>vs_pos := Suc (vs_pos g), trace := trace g @ [CaptureRead True]\<rparr>)"
  have "vs_pos g1 = Suc (vs_pos g)" by (simp add: g1_def)
  with d have "frame_loop env vs g1 = Some (run_frames env vs fs g1)"
    by (intro Cons.IH) simp
  then show ?case
    by (subst frame_loop.simps) (simp add: r g1_def [symmetric] Let_def)
qed

lemma finite_stream_delivers:
  assumes "reads vs n = None" "p \<le> n"
  shows "\<exists>frames. delivers vs p frames"
  using assms
proof (induction "n - p" arbitrary: p)
  case 0
  then have "p = n" by simp
  with 0 have "delivers vs p []" by simp
  then show ?case ..
next
  case (Suc k)
  show ?case
  proof (cases "reads vs p")
    case None
    then have "delivers vs p []" by simp
    then show ?thesis ..
  next
    case (Some f)
    from Suc.hyps(2) Suc.prems have "k = n - Suc p" "Suc p \<le> n" by simp_all
    with Suc.hyps(1) [of "Suc p"] Suc.prems(1) obtain fs where "delivers vs (Suc p) fs"
      by blast
    with Some have "delivers vs p (f # fs)" by simp
    then show ?thesis ..
  qed
qed

lemma process_frame_inference:
  "filter is_inference (trace (process_frame env vs frame g)) =
     filter is_inference (trace g) @ [BlobFromImage frame, SetInput, Forward]"
  by (simp add: process_frame_unfold [OF refl refl refl refl refl])

lemma run_frames_inference:
  assumes "raised g = None"
  shows "\<exists>k \<le> length frames.
     filter is_inference (trace (run_frames env vs frames g)) =
       filter is_inference (trace g)
       @ concat (map (\<lambda>f. [CaptureRead True, BlobFromImage f, SetInput, Forward]) (take k frames))
       @ (if raised (run_frames env vs frames g) = None then [CaptureRead False] else [])
     \<and> (raised (run_frames env vs frames g) = None \<longrightarrow> k = length frames)"
  using assms
proof (induction frames arbitrary: g)
  case Nil
  then show ?case by simp
next
  case (Cons f fs)
  define g1 where "g1 = process_frame env vs f
                      (g\<lparr>vs_pos := Suc (vs_pos g), trace := trace g @ [CaptureRead True]\<rparr>)"
  have t1: "filter is_inference (trace g1) =
      filter is_inference (trace g) @ [CaptureRead True, BlobFromImage f, SetInput, Forward]"
    by (simp add: g1_def process_frame_inference)
  show ?case
  proof (cases "raised g1 = None")
    case False
    then have r: "run_frames env vs (f # fs) g = g1" by (simp add: g1_def Let_def)
    from False obtain e where e: "raised g1 = Some e" by auto
    show ?thesis
      unfolding r by (rule exI [of _ 1]) (simp add: e t1)
  next
    case True
    then have r: "run_frames env vs (f # fs) g = run_frames env vs fs g1"
      by (simp add: g1_def Let_def)
    from Cons.IH [OF True] obtain k where k:
      "k \<le> length fs \<and>
       filter is_inference (trace (run_frames env vs fs g1)) =
       filter is_inference (trace g1)
       @ concat (map (\<lambda>f. [CaptureRead True, BlobFromImage f, SetInput, Forward]) (take k fs))
       @ (if raised (run_frames env vs fs g1) = None then [CaptureRead False] else [])
       \<and> (raised (run_frames env vs fs g1) = None \<longrightarrow> k = length fs)"
      by (elim exE)
    show ?thesis
      unfolding r by (rule exI [of _ "Suc k"]) (use k t1 in simp)
  qed
qed

text \<open>The sample video delivers its two frames and the loop runs through them.\<close>

lemma sample_delivers:
  "delivers sample_capture (vs_pos fresh_globals) [sample_frame 1, sample_frame 2]"
  by code_simp

lemma sample_loop:
  "frame_loop sample_env sample_capture fresh_globals =
     Some (run_frames sample_env sample_capture [sample_frame 1, sample_frame 2] fresh_globals)"
  by (rule frame_loop_delivers) (rule sample_delivers)

lemma sample_run_raised:
  "raised (run_frames sample_env sample_capture [sample_frame 1, sample_frame 2] fresh_globals) = None"
  by code_simp

lemma sample_run_inference:
  "filter is_inference
     (trace (run_frames sample_env sample_capture [sample_frame 1, sample_frame 2] fresh_globals)) =
   [CaptureRead True, BlobFromImage (sample_frame 1), SetInput, Forward,
    CaptureRead True, BlobFromImage (sample_frame 2), SetInput, Forward, CaptureRead False]"
  by code_simp

text \<open>
  Claim C5. On a finite video stream (some read fails) the frame loop terminates. Up to
  the forward pass its calls are, for each grabbed frame in read order, one successful
  read, one \<^verbatim>\<open>blobFromImage\<close> of that frame, one \<^verbatim>\<open>setInput\<close> and one
  \<^verbatim>\<open>forward\<close>, and nothing else; when no exception ends the run, every frame before
  the first failing read is processed and the failing read is the last of these calls.
\<close>

theorem frame_loop_terminates_on_finite_stream:
  assumes "reads vs n = None" and "vs_pos g \<le> n" and "raised g = None"
  shows "\<exists>g' frames k. frame_loop env vs g = Some g'
     \<and> delivers vs (vs_pos g) frames \<and> k \<le> length frames
     \<and> filter is_inference (trace g') =
         filter is_inference (trace g)
         @ concat (map (\<lambda>f. [CaptureRead True, BlobFromImage f, SetInput, Forward]) (take k frames))
         @ (if raised g' = None then [CaptureRead False] else [])
     \<and> (raised g' = None \<longrightarrow> k = length frames)"
proof -
  from finite_stream_delivers [OF assms(1,2)] obtain frames
    where d: "delivers vs (vs_pos g) frames" ..
  then have fl: "frame_loop env vs g = Some (run_frames env vs frames g)"
    by (rule frame_loop_delivers)
  from run_frames_inference [OF assms(3), of frames env vs] obtain k where k:
    "k \<le> length frames \<and>
     filter is_inference (trace (run_frames env vs frames g)) =
       filter is_inference (trace g)
       @ concat (map (\<lambda>f. [CaptureRead True, BlobFromImage f, SetInput, Forward]) (take k frames))
       @ (if raised (run_frames env vs frames g) = None then [CaptureRead False] else [])
     \<and> (raised (run_frames env vs frames g) = None \<longrightarrow> k = length frames)"
    by (elim exE)
  show ?thesis
    apply (rule exI [of _ "run_frames env vs frames g"])
    apply (rule exI [of _ frames])
    apply (rule exI [of _ k])
    apply (rule conjI [OF fl])
    apply (rule conjI [OF d])
    apply (rule k)
    done
qed

theorem frame_loop_terminates_on_finite_stream_witness:
  "map_option raised (frame_loop sample_env sample_capture fresh_globals) = Some None
   \<and> map_option (\<lambda>g'. filter is_inference (trace g'))
        (frame_loop sample_env sample_capture fresh_globals) =
      Some [CaptureRead True, BlobFromImage (sample_frame 1), SetInput, Forward,
            CaptureRead True, BlobFromImage (sample_frame 2), SetInput, Forward,
            CaptureRead False]"
proof -
  have h1: "reads sample_capture 2 = None" by (simp add: sample_capture_def)
  have h2: "vs_pos fresh_globals \<le> 2" by (simp add: fresh_globals_def)
  have h3: "raised fresh_globals = None" by (simp add: fresh_globals_def)
  from frame_loop_terminates_on_finite_stream [OF h1 h2 h3, of sample_env]
  obtain g' where g': "frame_loop sample_env sample_capture fresh_globals = Some g'"
    by (elim exE conjE)
  with sample_loop have "g' = run_frames sample_env sample_capture
      [sample_frame 1, sample_frame 2] fresh_globals" by simp
  with g' sample_run_raised sample_run_inference show ?thesis by simp
qed



lemma process_frame_ok:
  assumes "raised g = None" "raised (process_frame env vs frame g) = None"
  shows "\<exists>ls :: lists. trace (process_frame env vs frame g) =
           trace g @ [BlobFromImage frame, SetInput, Forward]
           @ (if writer g = None
              then [VideoWriter outpath ''MJPG'' 30 (frame_height vs, frame_width vs) True] else [])
           @ [WriterWrite (fst (label_frame env frame (boxes ls) (confidences ls) (classIDs ls)))]
         \<and> writer (process_frame env vs frame g) =
             (if writer g = None then Some (mjpg_writer vs) else writer g)"
proof -
  define H where "H = (if W_glob g = None \<or> H_glob g = None then rows frame else the (H_glob g))"
  define W where "W = (if W_glob g = None \<or> H_glob g = None then cols frame else the (W_glob g))"
  define r where "r = parse_layers (forward env frame) H W (defaults g)"
  define ls where "ls = fst r"
  define lf where "lf = label_frame env frame (boxes (fst r)) (confidences (fst r)) (classIDs (fst r))"
  define g3 where "g3 = g\<lparr>defaults := fst r, W_glob := Some W, H_glob := Some H,
                 trace := trace g @ [BlobFromImage frame, SetInput, Forward]\<rparr>"
  note pf = process_frame_unfold [OF H_def W_def r_def lf_def g3_def, of vs]
  have r3: "raised g3 = None" using assms(1) by (simp add: g3_def)
  have a: "snd r = None"
  proof (rule ccontr)
    assume n: "snd r \<noteq> None"
    then have "process_frame env vs frame g = g3\<lparr>raised := snd r\<rparr>" unfolding pf by simp
    with assms(2) n show False by simp
  qed
  have b: "snd lf = None"
  proof (rule ccontr)
    assume n: "snd lf \<noteq> None"
    with a have "process_frame env vs frame g = g3\<lparr>raised := snd lf\<rparr>" unfolding pf by simp
    with assms(2) n show False by simp
  qed
  have "trace (process_frame env vs frame g) =
           trace g @ [BlobFromImage frame, SetInput, Forward]
           @ (if writer g = None
              then [VideoWriter outpath ''MJPG'' 30 (frame_height vs, frame_width vs) True] else [])
           @ [WriterWrite (fst (label_frame env frame (boxes ls) (confidences ls) (classIDs ls)))]
         \<and> writer (process_frame env vs frame g) =
             (if writer g = None then Some (mjpg_writer vs) else writer g)"
  proof (cases "writer g = None")
    case True
    with a b have "process_frame env vs frame g =
        g3\<lparr>writer := Some (mjpg_writer vs),
           trace := trace g3 @ [VideoWriter outpath ''MJPG'' 30
                                 (frame_height vs, frame_width vs) True, WriterWrite (fst lf)]\<rparr>"
      unfolding pf by (simp add: mjpg_writer_def)
    with True show ?thesis by (simp add: g3_def lf_def ls_def)
  next
    case False
    with a b have "process_frame env vs frame g = g3\<lparr>trace := trace g3 @ [WriterWrite (fst lf)]\<rparr>"
      unfolding pf by auto
    with False show ?thesis by (simp add: g3_def lf_def ls_def)
  qed
  then show ?thesis by (rule exI [of _ ls])
qed

lemma process_frame_raised:
  assumes "raised (process_frame env vs frame g) \<noteq> None" "raised g = None"
  shows "trace (process_frame env vs frame g) = trace g @ [BlobFromImage frame, SetInput, Forward]
    \<and> writer (process_frame env vs frame g) = writer g"
proof -
  define H where "H = (if W_glob g = None \<or> H_glob g = None then rows frame else the (H_glob g))"
  define W where "W = (if W_glob g = None \<or> H_glob g = None then cols frame else the (W_glob g))"
  define r where "r = parse_layers (forward env frame) H W (defaults g)"
  define lf where "lf = label_frame env frame (boxes (fst r)) (confidences (fst r)) (classIDs (fst r))"
  define g3 where "g3 = g\<lparr>defaults := fst r, W_glob := Some W, H_glob := Some H,
                 trace := trace g @ [BlobFromImage frame, SetInput, Forward]\<rparr>"
  note pf = process_frame_unfold [OF H_def W_def r_def lf_def g3_def, of vs]
  have g3: "raised g3 = None" "trace g3 = trace g @ [BlobFromImage frame, SetInput, Forward]"
    "writer g3 = writer g"
    using assms(2) by (simp_all add: g3_def)
  show ?thesis
  proof (cases "snd r \<noteq> None")
    case True
    then have "process_frame env vs frame g = g3\<lparr>raised := snd r\<rparr>" unfolding pf by simp
    with g3 show ?thesis by simp
  next
    case False
    show ?thesis
    proof (cases "snd lf \<noteq> None")
      case True
      with False have "process_frame env vs frame g = g3\<lparr>raised := snd lf\<rparr>"
        unfolding pf by simp
      with g3 show ?thesis by simp
    next
      case nolf: False
      with False have "raised (process_frame env vs frame g) = raised g3"
        unfolding pf by simp
      with assms(1) g3(1) show ?thesis by simp
    qed
  qed
qed



lemma annotated_by_same_picture:
  assumes "annotated_by env frame out"
  shows "rows out = rows frame \<and> cols out = cols frame \<and> pixels out = pixels frame"
proof -
  from assms obtain ls :: lists where
    out: "out = fst (label_frame env frame (boxes ls) (confidences ls) (classIDs ls))"
    unfolding annotated_by_def by (elim exE)
  from label_frame_only_draws [of env frame "boxes ls" "confidences ls" "classIDs ls"]
  obtain ops where "fst (label_frame env frame (boxes ls) (confidences ls) (classIDs ls)) =
      frame\<lparr>drawn := drawn frame @ ops\<rparr>" ..
  with out show ?thesis by simp
qed



section \<open>Default arguments across calls\<close>

lemma parse_layers_default_accumulates:
  "defaults (snd (parse_layers_default outs H W g)) = fst (parse_layers outs H W (defaults g))"
  "fst (parse_layers_default outs H W g) = parse_layers outs H W (defaults g)"
  by (simp_all add: parse_layers_default_def Let_def)

lemma image_cell_fills_defaults:
  "defaults (snd (image_cell env img g)) =
     fst (parse_layers (forward env img) (rows img) (cols img) (defaults g))"
  by (simp add: image_cell_def parse_layers_default_def Let_def split: prod.splits option.splits)

text \<open>
  Claim C1 fails on the code. The defaults \<^verbatim>\<open>boxes=[], confidences=[], classIDs=[]\<close> of
  \<^verbatim>\<open>parse_layers\<close> are created once, so every call that omits them appends to the lists
  of the calls before it. On the sample video the call for the first frame returns that
  frame's one detection, and the call for the second frame, whose own layer outputs
  hold no detection above the threshold, returns the first frame's detection again; the
  second frame is written with the first frame's box drawn on it.
\<close>

theorem parse_layers_defaults_carry_detections_over:
  "fst (fst (parse_layers_default (forward sample_env (sample_frame 2)) 100 201
         (snd (parse_layers_default (forward sample_env (sample_frame 1)) 100 201 fresh_globals))))
     = sample_lists
   \<and> fst (parse_layers (forward sample_env (sample_frame 2)) 100 201 no_lists) = no_lists
   \<and> map_option (\<lambda>g'. map drawn (written_frames (trace g')))
        (frame_loop sample_env sample_capture fresh_globals) =
      Some [[Rectangle (75, 37) (125, 62) [95, 179, 61] 2,
             PutText ''car'' (4/5) (75, 32) [95, 179, 61] 2],
            [Rectangle (75, 37) (125, 62) [95, 179, 61] 2,
             PutText ''car'' (4/5) (75, 32) [95, 179, 61] 2]]"
proof (intro conjI)
  show "fst (fst (parse_layers_default (forward sample_env (sample_frame 2)) 100 201
         (snd (parse_layers_default (forward sample_env (sample_frame 1)) 100 201 fresh_globals))))
     = sample_lists"
    by code_simp
  show "fst (parse_layers (forward sample_env (sample_frame 2)) 100 201 no_lists) = no_lists"
    by code_simp
  have "map drawn (written_frames (trace
          (run_frames sample_env sample_capture [sample_frame 1, sample_frame 2] fresh_globals))) =
      [[Rectangle (75, 37) (125, 62) [95, 179, 61] 2,
             PutText ''car'' (4/5) (75, 32) [95, 179, 61] 2],
            [Rectangle (75, 37) (125, 62) [95, 179, 61] 2,
             PutText ''car'' (4/5) (75, 32) [95, 179, 61] 2]]"
    by code_simp
  then show "map_option (\<lambda>g'. map drawn (written_frames (trace g')))
        (frame_loop sample_env sample_capture fresh_globals) =
      Some [[Rectangle (75, 37) (125, 62) [95, 179, 61] 2,
             PutText ''car'' (4/5) (75, 32) [95, 179, 61] 2],
            [Rectangle (75, 37) (125, 62) [95, 179, 61] 2,
             PutText ''car'' (4/5) (75, 32) [95, 179, 61] 2]]"
    by (simp only: sample_loop option.map)
qed

section \<open>Opening and releasing the capture and the writer\<close>

lemma process_frame_no_raise:
  assumes "well_formed env" "lists_ok (length (LABELS env)) (defaults g)" "raised g = None"
  shows "raised (process_frame env vs frame g) = None
       \<and> lists_ok (length (LABELS env)) (defaults (process_frame env vs frame g))"
proof -
  define H where "H = (if W_glob g = None \<or> H_glob g = None then rows frame else the (H_glob g))"
  define W where "W = (if W_glob g = None \<or> H_glob g = None then cols frame else the (W_glob g))"
  define r where "r = parse_layers (forward env frame) H W (defaults g)"
  define lf where "lf = label_frame env frame (boxes (fst r)) (confidences (fst r)) (classIDs (fst r))"
  define g3 where "g3 = g\<lparr>defaults := fst r, W_glob := Some W, H_glob := Some H,
                 trace := trace g @ [BlobFromImage frame, SetInput, Forward]\<rparr>"
  note pf = process_frame_unfold [OF H_def W_def r_def lf_def g3_def, of vs]
  from assms(1) have rows: "\<forall>d \<in> set (concat (forward env frame)). length d = 5 + length (LABELS env)"
    and n: "0 < length (LABELS env)" and c: "length (COLORS env) = length (LABELS env)"
    and nms: "\<forall>i \<in> set (NMSBoxes env (boxes (fst r)) (confidences (fst r)) CONFIDENCE THRESHOLD).
                i < length (boxes (fst r))"
    by (simp_all add: well_formed_def list_all_iff)
  from parse_layers_lists_ok [OF assms(2) rows n, of H W]
  have ok: "lists_ok (length (LABELS env)) (fst r)" and a: "snd r = None"
    by (simp_all add: r_def)
  have b: "snd lf = None"
    unfolding lf_def label_frame_def Let_def
    using draw_boxes_in_bounds [OF ok c nms] by simp
  have d: "defaults (process_frame env vs frame g) = fst r"
    and e: "raised (process_frame env vs frame g) = raised g3"
    unfolding pf using a b by (simp_all add: g3_def)
  show ?thesis using d e ok assms(3) by (simp add: g3_def)
qed

lemma run_frames_no_raise:
  assumes "well_formed env" "lists_ok (length (LABELS env)) (defaults g)" "raised g = None"
  shows "raised (run_frames env vs frames g) = None"
  using assms(2,3)
proof (induction frames arbitrary: g)
  case Nil
  then show ?case by simp
next
  case (Cons f fs)
  define g0 where "g0 = g\<lparr>vs_pos := Suc (vs_pos g), trace := trace g @ [CaptureRead True]\<rparr>"
  define g1 where "g1 = process_frame env vs f g0"
  from Cons.prems have "lists_ok (length (LABELS env)) (defaults g0)" "raised g0 = None"
    by (simp_all add: g0_def)
  from process_frame_no_raise [OF assms(1) this, of vs f]
  have g1: "raised g1 = None" "lists_ok (length (LABELS env)) (defaults g1)"
    by (simp_all add: g1_def)
  then have "run_frames env vs (f # fs) g = run_frames env vs fs g1"
    by (simp add: g1_def g0_def Let_def)
  with Cons.IH [OF g1(2,1)] show ?case by simp
qed

lemma process_frame_lifecycle:
  assumes "raised g = None"
  shows "filter is_lifecycle (trace (process_frame env vs frame g)) =
           filter is_lifecycle (trace g)
           @ (if raised (process_frame env vs frame g) = None \<and> writer g = None
              then [VideoWriter outpath ''MJPG'' 30 (frame_height vs, frame_width vs) True] else [])"
    and "writer g \<noteq> None \<Longrightarrow> writer (process_frame env vs frame g) = writer g"
    and "raised (process_frame env vs frame g) = None \<Longrightarrow> writer (process_frame env vs frame g) \<noteq> None"
    and "raised (process_frame env vs frame g) \<noteq> None \<Longrightarrow> writer (process_frame env vs frame g) = writer g"
proof -
  have all: "filter is_lifecycle (trace (process_frame env vs frame g)) =
           filter is_lifecycle (trace g)
           @ (if raised (process_frame env vs frame g) = None \<and> writer g = None
              then [VideoWriter outpath ''MJPG'' 30 (frame_height vs, frame_width vs) True] else [])
     \<and> (writer g \<noteq> None \<longrightarrow> writer (process_frame env vs frame g) = writer g)
     \<and> (raised (process_frame env vs frame g) = None \<longrightarrow> writer (process_frame env vs frame g) \<noteq> None)"
  proof (cases "raised (process_frame env vs frame g) = None")
    case True
    from process_frame_ok [OF assms True] obtain ls :: lists where
      "trace (process_frame env vs frame g) =
           trace g @ [BlobFromImage frame, SetInput, Forward]
           @ (if writer g = None
              then [VideoWriter outpath ''MJPG'' 30 (frame_height vs, frame_width vs) True] else [])
           @ [WriterWrite (fst (label_frame env frame (boxes ls) (confidences ls) (classIDs ls)))]
         \<and> writer (process_frame env vs frame g) =
             (if writer g = None then Some (mjpg_writer vs) else writer g)"
      by (elim exE)
    with True show ?thesis by simp
  next
    case False
    from process_frame_raised [OF False assms] False show ?thesis by auto
  qed
  from all show "filter is_lifecycle (trace (process_frame env vs frame g)) =
           filter is_lifecycle (trace g)
           @ (if raised (process_frame env vs frame g) = None \<and> writer g = None
              then [VideoWriter outpath ''MJPG'' 30 (frame_height vs, frame_width vs) True] else [])"
    by (elim conjE)
  from all show "writer g \<noteq> None \<Longrightarrow> writer (process_frame env vs frame g) = writer g"
    by (elim conjE) simp
  from all show "raised (process_frame env vs frame g) = None \<Longrightarrow>
      writer (process_frame env vs frame g) \<noteq> None"
    by (elim conjE) simp
  show "raised (process_frame env vs frame g) \<noteq> None \<Longrightarrow>
      writer (process_frame env vs frame g) = writer g"
    using process_frame_raised [OF _ assms, of env vs frame] by simp
qed

lemma run_frames_lifecycle:
  assumes "raised g = None"
  shows "filter is_lifecycle (trace (run_frames env vs frames g)) =
           filter is_lifecycle (trace g)
           @ (if writer g = None \<and> writer (run_frames env vs frames g) \<noteq> None
              then [VideoWriter outpath ''MJPG'' 30 (frame_height vs, frame_width vs) True] else [])
       \<and> (writer g \<noteq> None \<longrightarrow> writer (run_frames env vs frames g) = writer g)
       \<and> (raised (run_frames env vs frames g) = None \<longrightarrow>
            (\<exists>evs. trace (run_frames env vs frames g) = evs @ [CaptureRead False])
          \<and> (frames \<noteq> [] \<longrightarrow> writer (run_frames env vs frames g) \<noteq> None))"
  using assms
proof (induction frames arbitrary: g)
  case Nil
  show ?case by auto
next
  case (Cons f fs)
  define g0 where "g0 = g\<lparr>vs_pos := Suc (vs_pos g), trace := trace g @ [CaptureRead True]\<rparr>"
  define g1 where "g1 = process_frame env vs f g0"
  have r0: "raised g0 = None" and w0: "writer g0 = writer g"
    and t0: "filter is_lifecycle (trace g0) = filter is_lifecycle (trace g)"
    using Cons.prems by (simp_all add: g0_def)
  note pf = process_frame_lifecycle [OF r0, of env vs f, folded g1_def, unfolded w0 t0]
  have r: "run_frames env vs (f # fs) g = (if raised g1 \<noteq> None then g1 else run_frames env vs fs g1)"
    by (simp add: g1_def g0_def Let_def)
  show ?case
  proof (cases "raised g1 = None")
    case False
    with r have e: "run_frames env vs (f # fs) g = g1" by simp
    show ?thesis unfolding e using False pf by auto
  next
    case True
    with r have rr: "run_frames env vs (f # fs) g = run_frames env vs fs g1" by simp
    from pf(3) [OF True] have w1: "writer g1 \<noteq> None" .
    from Cons.IH [OF True] w1
    have ih: "filter is_lifecycle (trace (run_frames env vs fs g1)) = filter is_lifecycle (trace g1)"
      "writer (run_frames env vs fs g1) = writer g1"
      "raised (run_frames env vs fs g1) = None \<longrightarrow>
            (\<exists>evs. trace (run_frames env vs fs g1) = evs @ [CaptureRead False])"
      by simp_all
    show ?thesis
      unfolding rr using ih pf(1,2) True w1 by auto
  qed
qed

text \<open>
  Claim C3, amended. On a video whose reads deliver the given frames and then fail,
  the video cells terminate. With at least one frame and no uncaught exception, the
  capture and the writer are each opened exactly once and each released exactly once,
  the releases directly after the failing read that ends the loop; well-formed
  surroundings raise no exception. With no frame at all the writer is never opened,
  \<^verbatim>\<open>writer.release()\<close> raises \<^verbatim>\<open>AttributeError\<close> on \<^verbatim>\<open>None\<close>, and neither the writer
  nor the capture is released.
\<close>

theorem capture_and_writer_opened_and_released_once:
  assumes "delivers vs 0 frames" and "raised g = None"
  shows "\<exists>g'. video_cells env vs g = Some g'
     \<and> (frames = [] \<longrightarrow>
           raised g' = Some AttributeError
         \<and> filter is_lifecycle (trace g') = filter is_lifecycle (trace g) @ [VideoCapture video])
     \<and> (frames \<noteq> [] \<and> raised g' = None \<longrightarrow>
           filter is_lifecycle (trace g') =
             filter is_lifecycle (trace g)
             @ [VideoCapture video,
                VideoWriter outpath ''MJPG'' 30 (frame_height vs, frame_width vs) True,
                WriterRelease, CaptureRelease]
         \<and> (\<exists>evs. trace g' =
                evs @ [CaptureRead False, WriterRelease, CaptureRelease, Print ''All done!'']))
     \<and> (frames \<noteq> [] \<and> well_formed env \<and> lists_ok (length (LABELS env)) (defaults g) \<longrightarrow>
           raised g' = None)"
proof -
  define gb where "gb = count_frames vs (open_video g)"
  define r where "r = run_frames env vs frames gb"
  define g' where "g' = (if raised r \<noteq> None then r else release_all r)"
  have gb: "raised gb = None" "writer gb = None" "vs_pos gb = 0" "defaults gb = defaults g"
    "filter is_lifecycle (trace gb) = filter is_lifecycle (trace g) @ [VideoCapture video]"
    using assms(2) by (simp_all add: gb_def count_frames_def open_video_def split: sum.splits)
  from assms(1) have "delivers vs (vs_pos gb) frames" by (simp add: gb(3))
  then have "frame_loop env vs gb = Some r" unfolding r_def by (rule frame_loop_delivers)
  then have vc: "video_cells env vs g = Some g'"
    by (simp add: video_cells_def loop_cell_def gb_def g'_def)
  from run_frames_lifecycle [OF gb(1), of env vs frames, folded r_def, unfolded gb(2,5)]
  have life: "filter is_lifecycle (trace r) =
           (filter is_lifecycle (trace g) @ [VideoCapture video])
           @ (if writer r \<noteq> None
              then [VideoWriter outpath ''MJPG'' 30 (frame_height vs, frame_width vs) True] else [])"
    and last: "raised r = None \<Longrightarrow> \<exists>evs. trace r = evs @ [CaptureRead False]"
    and wne: "raised r = None \<Longrightarrow> frames \<noteq> [] \<Longrightarrow> writer r \<noteq> None"
    by simp_all
  have empty: "raised g' = Some AttributeError
         \<and> filter is_lifecycle (trace g') = filter is_lifecycle (trace g) @ [VideoCapture video]"
    if "frames = []"
  proof -
    from that have "r = gb\<lparr>vs_pos := Suc (vs_pos gb), trace := trace gb @ [CaptureRead False]\<rparr>"
      by (simp add: r_def)
    then show ?thesis using gb by (simp add: g'_def release_all_def)
  qed
  have ok: "filter is_lifecycle (trace g') =
             filter is_lifecycle (trace g)
             @ [VideoCapture video,
                VideoWriter outpath ''MJPG'' 30 (frame_height vs, frame_width vs) True,
                WriterRelease, CaptureRelease]
         \<and> (\<exists>evs. trace g' =
                evs @ [CaptureRead False, WriterRelease, CaptureRelease, Print ''All done!''])"
    if ne: "frames \<noteq> []" and rg: "raised g' = None"
  proof -
    have rr: "raised r = None"
    proof (rule ccontr)
      assume "raised r \<noteq> None"
      with rg show False by (simp add: g'_def)
    qed
    from wne [OF rr ne] obtain w where w: "writer r = Some w" by auto
    from last [OF rr] obtain evs where evs: "trace r = evs @ [CaptureRead False]" ..
    have tg: "trace g' = trace r @ [WriterRelease, CaptureRelease, Print ''All done!'']"
      using rr w by (simp add: g'_def release_all_def)
    have "trace g' = evs @ [CaptureRead False, WriterRelease, CaptureRelease, Print ''All done!'']"
      by (simp add: tg evs)
    then have "\<exists>evs. trace g' =
                evs @ [CaptureRead False, WriterRelease, CaptureRelease, Print ''All done!'']"
      by (rule exI [of _ evs])
    moreover have "filter is_lifecycle (trace r) =
        filter is_lifecycle (trace g) @ [VideoCapture video,
                VideoWriter outpath ''MJPG'' 30 (frame_height vs, frame_width vs) True]"
      unfolding life using w by simp
    then have "filter is_lifecycle (trace g') =
             filter is_lifecycle (trace g)
             @ [VideoCapture video,
                VideoWriter outpath ''MJPG'' 30 (frame_height vs, frame_width vs) True,
                WriterRelease, CaptureRelease]"
      by (simp add: tg)
    ultimately show ?thesis by simp
  qed
  have wf: "raised g' = None"
    if ne: "frames \<noteq> []" and "well_formed env" and "lists_ok (length (LABELS env)) (defaults g)"
  proof -
    from that(3) have "lists_ok (length (LABELS env)) (defaults gb)" by (simp add: gb(4))
    from run_frames_no_raise [OF that(2) this gb(1), of vs frames]
    have rr: "raised r = None" by (simp add: r_def)
    from wne [OF rr ne] obtain w where w: "writer r = Some w" by auto
    with rr show ?thesis by (simp add: g'_def release_all_def)
  qed
  from empty have c1: "frames = [] \<longrightarrow>
           raised g' = Some AttributeError
         \<and> filter is_lifecycle (trace g') = filter is_lifecycle (trace g) @ [VideoCapture video]"
    by (rule impI)
  from ok have c2: "frames \<noteq> [] \<and> raised g' = None \<longrightarrow>
           filter is_lifecycle (trace g') =
             filter is_lifecycle (trace g)
             @ [VideoCapture video,
                VideoWriter outpath ''MJPG'' 30 (frame_height vs, frame_width vs) True,
                WriterRelease, CaptureRelease]
         \<and> (\<exists>evs. trace g' =
                evs @ [CaptureRead False, WriterRelease, CaptureRelease, Print ''All done!''])"
    by (intro impI) (elim conjE)
  from wf have c3: "frames \<noteq> [] \<and> well_formed env
        \<and> lists_ok (length (LABELS env)) (defaults g) \<longrightarrow> raised g' = None"
    by (intro impI) (elim conjE)
  show ?thesis
    by (rule exI [of _ g']) (intro conjI vc c1 c2 c3)
qed

text \<open>
  The claim as stated fails on the video without frames: the run ends with
  \<^verbatim>\<open>AttributeError\<close>, and its calls are the opening of the capture, the frame count
  and one failing read.
\<close>

theorem empty_video_raises_and_releases_nothing:
  "map_option raised (video_cells sample_env empty_capture fresh_globals) =
     Some (Some AttributeError)
   \<and> map_option trace (video_cells sample_env empty_capture fresh_globals) =
     Some [VideoCapture ''videos/car_chase_01.mp4'', PrintTotal 0, CaptureRead False]"
  by code_simp

lemma sample_env_well_formed: "well_formed sample_env"
  by (simp add: well_formed_def sample_env_def list_all_iff)

theorem capture_and_writer_opened_and_released_once_witness:
  "map_option raised (video_cells sample_env sample_capture fresh_globals) = Some None
   \<and> map_option (\<lambda>g'. filter is_lifecycle (trace g'))
        (video_cells sample_env sample_capture fresh_globals) =
      Some [VideoCapture ''videos/car_chase_01.mp4'',
            VideoWriter ''output/cars.avi'' ''MJPG'' 30 (100, 201) True,
            WriterRelease, CaptureRelease]"
proof -
  let ?frames = "[sample_frame 1, sample_frame 2]"
  have d: "delivers sample_capture 0 ?frames" by code_simp
  have r0: "raised fresh_globals = None" and t0: "trace fresh_globals = []"
    by (simp_all add: fresh_globals_def)
  have ok: "lists_ok (length (LABELS sample_env)) (defaults fresh_globals)"
    by (simp add: fresh_globals_def no_lists_def lists_ok_def)
  from capture_and_writer_opened_and_released_once [OF d r0, of sample_env]
  obtain g' where g': "video_cells sample_env sample_capture fresh_globals = Some g'"
    and life: "?frames \<noteq> [] \<and> raised g' = None \<longrightarrow>
           filter is_lifecycle (trace g') =
             filter is_lifecycle (trace fresh_globals)
             @ [VideoCapture video,
                VideoWriter outpath ''MJPG'' 30
                  (frame_height sample_capture, frame_width sample_capture) True,
                WriterRelease, CaptureRelease]
         \<and> (\<exists>evs. trace g' =
                evs @ [CaptureRead False, WriterRelease, CaptureRelease, Print ''All done!''])"
    and wf: "?frames \<noteq> [] \<and> well_formed sample_env
              \<and> lists_ok (length (LABELS sample_env)) (defaults fresh_globals) \<longrightarrow>
           raised g' = None"
    by (elim exE conjE)
  from wf sample_env_well_formed ok have rg: "raised g' = None" by simp
  with life have "filter is_lifecycle (trace g') =
             filter is_lifecycle (trace fresh_globals)
             @ [VideoCapture video,
                VideoWriter outpath ''MJPG'' 30
                  (frame_height sample_capture, frame_width sample_capture) True,
                WriterRelease, CaptureRelease]"
    by simp
  then have "filter is_lifecycle (trace g') =
      [VideoCapture ''videos/car_chase_01.mp4'',
       VideoWriter ''output/cars.avi'' ''MJPG'' 30 (100, 201) True,
       WriterRelease, CaptureRelease]"
    by (simp add: t0 video_def outpath_def sample_capture_def)
  with g' rg show ?thesis by simp
qed

section \<open>The frame count\<close>

lemma same_but_count_sym: "same_but_count p1 p2 s1 s2 \<Longrightarrow> same_but_count p2 p1 s2 s1"
  by (auto simp: same_but_count_def)

lemma same_stream_sym: "same_stream vs1 vs2 \<Longrightarrow> same_stream vs2 vs1"
  by (simp add: same_stream_def)

lemma same_but_count_append:
  assumes "same_but_count p1 p2 s1 s2"
  shows "same_but_count p1 p2 (s1\<lparr>trace := trace s1 @ evs\<rparr>) (s2\<lparr>trace := trace s2 @ evs\<rparr>)"
proof -
  from assms obtain rest where "trace s1 = p1 @ rest" "trace s2 = p2 @ rest"
    and others: "defaults s1 = defaults s2" "W_glob s1 = W_glob s2" "H_glob s1 = H_glob s2"
      "writer s1 = writer s2" "vs_pos s1 = vs_pos s2" "raised s1 = raised s2"
    unfolding same_but_count_def by (elim exE conjE)
  then have "trace (s1\<lparr>trace := trace s1 @ evs\<rparr>) = p1 @ (rest @ evs)
      \<and> trace (s2\<lparr>trace := trace s2 @ evs\<rparr>) = p2 @ (rest @ evs)"
    by simp
  with others show ?thesis
    unfolding same_but_count_def by (intro exI [of _ "rest @ evs"]) simp
qed

lemma same_but_count_fields:
  assumes "same_but_count p1 p2 s1 s2"
  shows "defaults s1 = defaults s2" "W_glob s1 = W_glob s2" "H_glob s1 = H_glob s2"
      "writer s1 = writer s2" "vs_pos s1 = vs_pos s2" "raised s1 = raised s2"
  using assms by (auto simp: same_but_count_def)

lemma same_but_count_update:
  assumes "same_but_count p1 p2 s1 s2"
  shows "same_but_count p1 p2 (s1\<lparr>defaults := d\<rparr>) (s2\<lparr>defaults := d\<rparr>)"
    and "same_but_count p1 p2 (s1\<lparr>W_glob := w\<rparr>) (s2\<lparr>W_glob := w\<rparr>)"
    and "same_but_count p1 p2 (s1\<lparr>H_glob := h\<rparr>) (s2\<lparr>H_glob := h\<rparr>)"
    and "same_but_count p1 p2 (s1\<lparr>writer := wr\<rparr>) (s2\<lparr>writer := wr\<rparr>)"
    and "same_but_count p1 p2 (s1\<lparr>vs_pos := n\<rparr>) (s2\<lparr>vs_pos := n\<rparr>)"
    and "same_but_count p1 p2 (s1\<lparr>raised := r\<rparr>) (s2\<lparr>raised := r\<rparr>)"
  using assms by (auto simp: same_but_count_def)

lemma process_frame_same_but_count:
  assumes "same_but_count p1 p2 s1 s2" "same_stream vs1 vs2"
  shows "same_but_count p1 p2 (process_frame env vs1 frame s1) (process_frame env vs2 frame s2)"
proof -
  note f = same_but_count_fields [OF assms(1)]
  define H where "H = (if W_glob s1 = None \<or> H_glob s1 = None then rows frame else the (H_glob s1))"
  define W where "W = (if W_glob s1 = None \<or> H_glob s1 = None then cols frame else the (W_glob s1))"
  define r where "r = parse_layers (forward env frame) H W (defaults s1)"
  define lf where "lf = label_frame env frame (boxes (fst r)) (confidences (fst r)) (classIDs (fst r))"
  define a1 where "a1 = s1\<lparr>defaults := fst r, W_glob := Some W, H_glob := Some H,
                 trace := trace s1 @ [BlobFromImage frame, SetInput, Forward]\<rparr>"
  define a2 where "a2 = s2\<lparr>defaults := fst r, W_glob := Some W, H_glob := Some H,
                 trace := trace s2 @ [BlobFromImage frame, SetInput, Forward]\<rparr>"
  note pf1 = process_frame_unfold [OF H_def W_def r_def lf_def a1_def, of vs1]
  note pf2 = process_frame_unfold [OF H_def [unfolded f] W_def [unfolded f] r_def [unfolded f]
      lf_def a2_def, of vs2]
  have a: "same_but_count p1 p2 a1 a2"
    unfolding a1_def a2_def
    using same_but_count_append [OF assms(1), of "[BlobFromImage frame, SetInput, Forward]"]
    by (auto simp: same_but_count_def)
  have w: "frame_height vs1 = frame_height vs2" "frame_width vs1 = frame_width vs2"
    using assms(2) by (simp_all add: same_stream_def)
  have wr: "writer a1 = writer s1" "writer a2 = writer s2" by (simp_all add: a1_def a2_def)
  show ?thesis
  proof (cases "snd r \<noteq> None")
    case True
    then show ?thesis unfolding pf1 pf2 using same_but_count_update(6) [OF a] by simp
  next
    case nr: False
    show ?thesis
    proof (cases "snd lf \<noteq> None")
      case True
      with nr show ?thesis unfolding pf1 pf2 using same_but_count_update(6) [OF a] by simp
    next
      case nl: False
      show ?thesis
      proof (cases "writer s1 = None")
        case True
        then have "writer s2 = None" using f by simp
        with True nr nl show ?thesis
          unfolding pf1 pf2 w
          using same_but_count_append [OF same_but_count_update(4) [OF a,
              of "Some \<lparr>filename = outpath, fourcc = ''MJPG'', fps = 30,
                    frameSize = (frame_height vs2, frame_width vs2), isColor = True\<rparr>"],
            of "[VideoWriter outpath ''MJPG'' 30 (frame_height vs2, frame_width vs2) True,
                 WriterWrite (fst lf)]"]
          by simp
      next
        case False
        then have "writer s2 \<noteq> None" using f by simp
        with False nr nl show ?thesis
          unfolding pf1 pf2
          using same_but_count_append [OF a, of "[WriterWrite (fst lf)]"]
          by auto
      qed
    qed
  qed
qed

lemma frame_loop_same_forward:
  assumes "frame_loop env vs1 s1 = Some y1"
  shows "\<forall>s2 vs2. same_but_count p1 p2 s1 s2 \<longrightarrow> same_stream vs1 vs2 \<longrightarrow>
           (\<exists>y2. frame_loop env vs2 s2 = Some y2 \<and> same_but_count p1 p2 y1 y2)"
  using assms
proof (induction env vs1 s1 y1 rule: frame_loop.raw_induct [rotated 1, consumes 1, case_names 1])
  case (1 loop env vs g y)
  show ?case
  proof (intro allI impI)
    fix s2 vs2
    assume rel: "same_but_count p1 p2 g s2" and st: "same_stream vs vs2"
    from rel have pos: "vs_pos s2 = vs_pos g" by (simp add: same_but_count_fields)
    from st have rd: "reads vs2 = reads vs" by (simp add: same_stream_def)
    show "\<exists>y2. frame_loop env vs2 s2 = Some y2 \<and> same_but_count p1 p2 y y2"
    proof (cases "reads vs (vs_pos g)")
      case None
      with 1(2) have y: "y = g\<lparr>vs_pos := Suc (vs_pos g), trace := trace g @ [CaptureRead False]\<rparr>"
        by simp
      have "frame_loop env vs2 s2 =
          Some (s2\<lparr>vs_pos := Suc (vs_pos s2), trace := trace s2 @ [CaptureRead False]\<rparr>)"
        by (subst frame_loop.simps) (simp add: rd pos None)
      moreover have "same_but_count p1 p2 y
          (s2\<lparr>vs_pos := Suc (vs_pos s2), trace := trace s2 @ [CaptureRead False]\<rparr>)"
        unfolding y pos
        using same_but_count_append [OF same_but_count_update(5) [OF rel, of "Suc (vs_pos g)"],
          of "[CaptureRead False]"]
        by simp
      ultimately show ?thesis by simp
    next
      case (Some frame)
      define g0 where "g0 = g\<lparr>vs_pos := Suc (vs_pos g), trace := trace g @ [CaptureRead True]\<rparr>"
      define t0 where "t0 = s2\<lparr>vs_pos := Suc (vs_pos s2), trace := trace s2 @ [CaptureRead True]\<rparr>"
      define g1 where "g1 = process_frame env vs frame g0"
      define t1 where "t1 = process_frame env vs2 frame t0"
      have "same_but_count p1 p2 g0 t0"
        unfolding g0_def t0_def pos
        using same_but_count_append [OF same_but_count_update(5) [OF rel, of "Suc (vs_pos g)"],
          of "[CaptureRead True]"]
        by simp
      then have rel1: "same_but_count p1 p2 g1 t1"
        unfolding g1_def t1_def using st by (rule process_frame_same_but_count)
      then have rs: "raised t1 = raised g1" by (simp add: same_but_count_fields)
      have unf: "frame_loop env vs2 s2 = (if raised t1 \<noteq> None then Some t1 else frame_loop env vs2 t1)"
        by (subst frame_loop.simps) (simp add: rd pos Some t1_def t0_def Let_def)
      from 1(2) Some have step: "(if raised g1 \<noteq> None then Some g1 else loop env vs g1) = Some y"
        by (auto simp: g1_def g0_def Let_def split: if_splits)
      show ?thesis
      proof (cases "raised g1 \<noteq> None")
        case True
        with step have "y = g1" by simp
        with True rel1 rs unf show ?thesis by simp
      next
        case False
        with step have "loop env vs g1 = Some y" by simp
        from 1(1) [OF this] rel1 st obtain y2 where
          "frame_loop env vs2 t1 = Some y2 \<and> same_but_count p1 p2 y y2"
          by blast
        with False rs unf show ?thesis by simp
      qed
    qed
  qed
qed

lemma frame_loop_total:
  assumes "frame_loop env vs s = Some y"
  shows "total y = total s"
  using assms
proof (induction env vs s y rule: frame_loop.raw_induct [rotated 1, consumes 1, case_names 1])
  case (1 loop env vs g y)
  show ?case
  proof (cases "reads vs (vs_pos g)")
    case None
    with 1(2) show ?thesis by auto
  next
    case (Some frame)
    define g1 where "g1 = process_frame env vs frame
        (g\<lparr>vs_pos := Suc (vs_pos g), trace := trace g @ [CaptureRead True]\<rparr>)"
    have tg: "total g1 = total g" by (simp add: g1_def)
    from 1(2) Some have step: "(if raised g1 \<noteq> None then Some g1 else loop env vs g1) = Some y"
      by (auto simp: g1_def Let_def split: if_splits)
    show ?thesis
    proof (cases "raised g1 \<noteq> None")
      case True
      with step tg show ?thesis by simp
    next
      case False
      with step have "loop env vs g1 = Some y" by simp
      from 1(1) [OF this] tg show ?thesis by simp
    qed
  qed
qed

lemma frame_loop_same:
  assumes "same_but_count p1 p2 s1 s2" "same_stream vs1 vs2"
  shows "rel_option (same_but_count p1 p2) (frame_loop env vs1 s1) (frame_loop env vs2 s2)"
proof (cases "frame_loop env vs1 s1")
  case None
  have "frame_loop env vs2 s2 = None"
  proof (rule ccontr)
    assume "frame_loop env vs2 s2 \<noteq> None"
    then obtain y2 where "frame_loop env vs2 s2 = Some y2" by auto
    from frame_loop_same_forward [OF this, of p2 p1]
      same_but_count_sym [OF assms(1)] same_stream_sym [OF assms(2)]
    obtain y1 where "frame_loop env vs1 s1 = Some y1" by blast
    with None show False by simp
  qed
  with None show ?thesis by simp
next
  case (Some y1)
  from frame_loop_same_forward [OF this, of p1 p2] assms
  obtain y2 where "frame_loop env vs2 s2 = Some y2" "same_but_count p1 p2 y1 y2" by blast
  with Some show ?thesis by simp
qed

lemma release_all_same:
  assumes "same_but_count p1 p2 s1 s2"
  shows "same_but_count p1 p2 (release_all s1) (release_all s2)"
proof (cases "writer s1")
  case None
  then have "writer s2 = None" using same_but_count_fields(4) [OF assms] by simp
  with None show ?thesis
    using same_but_count_update(6) [OF assms, of "Some AttributeError"]
    by (simp add: release_all_def)
next
  case (Some w)
  then have "writer s2 = Some w" using same_but_count_fields(4) [OF assms] by simp
  with Some show ?thesis
    using same_but_count_append [OF assms, of "[WriterRelease, CaptureRelease, Print ''All done!'']"]
    by (simp add: release_all_def)
qed

lemma loop_cell_same:
  assumes "same_but_count p1 p2 s1 s2" "same_stream vs1 vs2"
  shows "rel_option (same_but_count p1 p2) (loop_cell env vs1 s1) (loop_cell env vs2 s2)"
proof -
  from frame_loop_same [OF assms, of env]
  have r: "rel_option (same_but_count p1 p2) (frame_loop env vs1 s1) (frame_loop env vs2 s2)" .
  show ?thesis
  proof (cases "frame_loop env vs1 s1")
    case None
    with r have "frame_loop env vs2 s2 = None" by (cases "frame_loop env vs2 s2") simp_all
    with None show ?thesis by (simp add: loop_cell_def)
  next
    case (Some y1)
    with r obtain y2 where y2: "frame_loop env vs2 s2 = Some y2" "same_but_count p1 p2 y1 y2"
      by (cases "frame_loop env vs2 s2") simp_all
    from y2(2) have rs: "raised y2 = raised y1" by (simp add: same_but_count_fields)
    show ?thesis
      using Some y2 rs release_all_same [OF y2(2)]
      by (simp add: loop_cell_def)
  qed
qed

lemma loop_cell_total:
  assumes "loop_cell env vs s = Some y"
  shows "total y = total s"
proof (cases "frame_loop env vs s")
  case None
  with assms show ?thesis by (simp add: loop_cell_def)
next
  case (Some r)
  then have "total r = total s" by (rule frame_loop_total)
  moreover have "total (release_all r) = total r"
    by (simp add: release_all_def split: option.splits)
  ultimately show ?thesis using assms Some by (auto simp: loop_cell_def split: if_splits)
qed

lemma rel_option_map_eq:
  assumes "rel_option R x y" "\<And>a b. R a b \<Longrightarrow> f a = f b"
  shows "map_option f x = map_option f y"
  using assms by (cases x; cases y) auto

lemma same_but_count_calls:
  assumes "same_but_count p1 p2 s1 s2" "calls p1 = calls p2"
  shows "calls (trace s1) = calls (trace s2)"
  using assms by (auto simp: same_but_count_def)

lemma same_but_count_written:
  assumes "same_but_count p1 p2 s1 s2" "written_frames p1 = written_frames p2"
  shows "written_frames (trace s1) = written_frames (trace s2)"
  using assms by (auto simp: same_but_count_def)

text \<open>
  Claim C4. When reading the frame count fails, the count cell prints its two warning
  lines and sets \<^verbatim>\<open>total\<close> to \<open>-1\<close>, and changes nothing else. The rest of the run
  is the same as after a successful read of any count \<open>n\<close>: either both runs do not
  terminate, or both end in states that agree in every global but \<^verbatim>\<open>total\<close> and in
  every entry of the trace after the lines the count cell printed. In particular the
  calls into OpenCV and the frames written are the same.
\<close>

theorem frame_count_failure_leaves_frame_loop_unchanged:
  assumes "frame_count vs = Inl e"
  shows "count_frames vs g =
           g\<lparr>total := - 1,
             trace := trace g @ [Print ''Error: could not determine # of frames in video'',
                                 Print ''Error: no approx. completion time can be provided'']\<rparr>
     \<and> rel_option
           (same_but_count
              (trace g @ [VideoCapture video,
                          Print ''Error: could not determine # of frames in video'',
                          Print ''Error: no approx. completion time can be provided''])
              (trace g @ [VideoCapture video, PrintTotal n]))
           (video_cells env vs g) (video_cells env (vs\<lparr>frame_count := Inr n\<rparr>) g)
     \<and> map_option (\<lambda>s. calls (trace s)) (video_cells env vs g) =
         map_option (\<lambda>s. calls (trace s)) (video_cells env (vs\<lparr>frame_count := Inr n\<rparr>) g)
     \<and> map_option (\<lambda>s. written_frames (trace s)) (video_cells env vs g) =
         map_option (\<lambda>s. written_frames (trace s)) (video_cells env (vs\<lparr>frame_count := Inr n\<rparr>) g)
     \<and> map_option total (video_cells env vs g) =
         map_option (\<lambda>s. - 1) (video_cells env (vs\<lparr>frame_count := Inr n\<rparr>) g)"
proof -
  let ?w1 = "Print ''Error: could not determine # of frames in video''"
  let ?w2 = "Print ''Error: no approx. completion time can be provided''"
  let ?vs' = "vs\<lparr>frame_count := Inr n\<rparr>"
  define p1 where "p1 = trace g @ [VideoCapture video, ?w1, ?w2]"
  define p2 where "p2 = trace g @ [VideoCapture video, PrintTotal n]"
  define sA where "sA = count_frames vs (open_video g)"
  define sB where "sB = count_frames ?vs' (open_video g)"
  have cf: "count_frames vs g = g\<lparr>total := - 1, trace := trace g @ [?w1, ?w2]\<rparr>"
    using assms by (simp add: count_frames_def)
  have rel0: "same_but_count p1 p2 sA sB"
    unfolding same_but_count_def
    by (rule exI [of _ "[]"])
       (simp add: sA_def sB_def p1_def p2_def count_frames_def open_video_def assms)
  have st: "same_stream vs ?vs'" by (simp add: same_stream_def)
  have tA: "total sA = - 1" using assms by (simp add: sA_def count_frames_def)
  from loop_cell_same [OF rel0 st, of env]
  have rel: "rel_option (same_but_count p1 p2) (video_cells env vs g) (video_cells env ?vs' g)"
    by (simp add: video_cells_def sA_def sB_def)
  have pc: "calls p1 = calls p2" by (simp add: p1_def p2_def calls_def)
  have pw: "written_frames p1 = written_frames p2"
    by (simp add: p1_def p2_def written_frames_def)
  have c: "map_option (\<lambda>s. calls (trace s)) (video_cells env vs g) =
         map_option (\<lambda>s. calls (trace s)) (video_cells env ?vs' g)"
    using rel by (rule rel_option_map_eq) (rule same_but_count_calls [OF _ pc])
  have w: "map_option (\<lambda>s. written_frames (trace s)) (video_cells env vs g) =
         map_option (\<lambda>s. written_frames (trace s)) (video_cells env ?vs' g)"
    using rel by (rule rel_option_map_eq) (rule same_but_count_written [OF _ pw])
  have t: "map_option total (video_cells env vs g) =
         map_option (\<lambda>s. - 1) (video_cells env ?vs' g)"
  proof (cases "video_cells env vs g")
    case None
    with rel have "video_cells env ?vs' g = None" by (cases "video_cells env ?vs' g") simp_all
    with None show ?thesis by simp
  next
    case (Some y)
    with rel obtain y' where y': "video_cells env ?vs' g = Some y'"
      by (cases "video_cells env ?vs' g") simp_all
    from Some have "loop_cell env vs sA = Some y" by (simp add: video_cells_def sA_def)
    then have "total y = - 1" using loop_cell_total tA by simp
    with Some y' show ?thesis by simp
  qed
  show ?thesis
    using cf rel [unfolded p1_def p2_def] c w t by (intro conjI)
qed

theorem frame_count_failure_leaves_frame_loop_unchanged_witness:
  "map_option total
     (video_cells sample_env (sample_capture\<lparr>frame_count := Inl AttributeError\<rparr>) fresh_globals)
     = Some (- 1)
   \<and> map_option (\<lambda>s. calls (trace s))
       (video_cells sample_env (sample_capture\<lparr>frame_count := Inl AttributeError\<rparr>) fresh_globals)
     = map_option (\<lambda>s. calls (trace s)) (video_cells sample_env sample_capture fresh_globals)
   \<and> map_option (\<lambda>s. length (written_frames (trace s)))
       (video_cells sample_env (sample_capture\<lparr>frame_count := Inl AttributeError\<rparr>) fresh_globals)
     = Some 2"
proof -
  let ?vs = "sample_capture\<lparr>frame_count := Inl AttributeError\<rparr>"
  have h: "frame_count ?vs = Inl AttributeError" by simp
  have restore: "?vs\<lparr>frame_count := Inr 2\<rparr> = sample_capture"
    by (simp add: sample_capture_def)
  note th = frame_count_failure_leaves_frame_loop_unchanged
    [OF h, of fresh_globals 2 sample_env, unfolded restore]
  have ev: "map_option (\<lambda>s. length (written_frames (trace s)))
      (video_cells sample_env sample_capture fresh_globals) = Some 2"
    by code_simp
  have ne: "video_cells sample_env sample_capture fresh_globals \<noteq> None"
    by code_simp
  note c = th [THEN conjunct2, THEN conjunct2, THEN conjunct1]
  note w = th [THEN conjunct2, THEN conjunct2, THEN conjunct2, THEN conjunct1]
  note t = th [THEN conjunct2, THEN conjunct2, THEN conjunct2, THEN conjunct2]
  from t ne have t': "map_option total (video_cells sample_env ?vs fresh_globals) = Some (- 1)"
    by (cases "video_cells sample_env sample_capture fresh_globals") simp_all
  from w have "map_option length (map_option (\<lambda>s. written_frames (trace s))
        (video_cells sample_env ?vs fresh_globals)) =
      map_option length (map_option (\<lambda>s. written_frames (trace s))
        (video_cells sample_env sample_capture fresh_globals))"
    by (rule arg_cong)
  with ev have w': "map_option (\<lambda>s. length (written_frames (trace s)))
      (video_cells sample_env ?vs fresh_globals) = Some 2"
    by (simp add: option.map_comp comp_def)
  from t' c w' show ?thesis by (intro conjI)
qed

end
